theory Spec2Isabelle
  imports Main "HOL-Library.Word"
begin

unbundle bit_operations_syntax

section \<open>JavaScript numbers and byte buffers\<close>

text \<open>
  The numbers of the source are integer-valued throughout and are modelled as \<open>int\<close>.
  The bitwise operators of JavaScript first convert their operands to signed 32-bit
  integers and take shift counts modulo 32; this is written out below.  A
  \<open>Buffer\<close>/\<open>Uint8Array\<close> is a list of 8-bit words of fixed length: a store outside
  the array is dropped, a store inside keeps the low eight bits, and a load outside
  the array is \<open>undefined\<close> (here \<open>None\<close>).
\<close>

type_synonym byte = "8 word"

definition js_int32 :: "int \<Rightarrow> int" where
  "js_int32 a = signed_take_bit 31 a"

definition js_and :: "int \<Rightarrow> int \<Rightarrow> int" where
  "js_and a b = js_int32 a AND js_int32 b"

definition js_or :: "int \<Rightarrow> int \<Rightarrow> int" where
  "js_or a b = js_int32 a OR js_int32 b"

definition js_shl :: "int \<Rightarrow> int \<Rightarrow> int" where
  "js_shl a n = js_int32 (push_bit (nat (n mod 32)) a)"

definition js_sar :: "int \<Rightarrow> int \<Rightarrow> int" where
  "js_sar a n = drop_bit (nat (n mod 32)) (js_int32 a)"

definition store :: "byte list \<Rightarrow> int \<Rightarrow> int \<Rightarrow> byte list" where
  "store buf i v = (if 0 \<le> i \<and> i < int (length buf) then buf[nat i := word_of_int v] else buf)"

definition load :: "byte list \<Rightarrow> int \<Rightarrow> int option" where
  "load buf i = (if 0 \<le> i \<and> i < int (length buf) then Some (uint (buf ! nat i)) else None)"

text \<open>\<open>undefined\<close> converts to 0 under a bitwise operator.\<close>

definition to_int32 :: "int option \<Rightarrow> int" where
  "to_int32 v = (case v of None \<Rightarrow> 0 | Some a \<Rightarrow> a)"

text \<open>\<open>buf[p++] = v\<close>, and a run of such stores.\<close>

definition put :: "byte list \<times> int \<Rightarrow> int \<Rightarrow> byte list \<times> int" where
  "put bp v = (store (fst bp) (snd bp) v, snd bp + 1)"

definition puts :: "byte list \<times> int \<Rightarrow> int list \<Rightarrow> byte list \<times> int" where
  "puts bp vs = foldl put bp vs"

section \<open>The LZW encoder (writer.ts, GifWriterOutputLZWCodeStream)\<close>

text \<open>
  The closure variables of the encoder form its state: the output buffer and cursor,
  the position of the open sub-block's length field, the bit accumulator \<open>cur\<close>
  with its fill \<open>cur_shift\<close>, and the dictionary with \<open>next_code\<close>,
  \<open>cur_code_size\<close> and the code \<open>ib_code\<close> of the index buffer.
\<close>

record packer =
  pk_buf :: "byte list"
  pk_p :: int
  pk_cur_subblock :: int
  pk_cur :: int
  pk_cur_shift :: int

record encoder = packer +
  en_next_code :: int
  en_cur_code_size :: int
  en_ib_code :: int
  en_code_table :: "int \<rightharpoonup> int"

text \<open>One round of the loop of \<open>emit_bytes_to_buffer\<close>.\<close>

definition emit_byte :: "'a packer_scheme \<Rightarrow> 'a packer_scheme" where
  "emit_byte s =
    (let s1 = s\<lparr>pk_buf := store (pk_buf s) (pk_p s) (js_and (pk_cur s) 0xFF),
                pk_p := pk_p s + 1,
                pk_cur := js_sar (pk_cur s) 8,
                pk_cur_shift := pk_cur_shift s - 8\<rparr>
     in if pk_p s1 = pk_cur_subblock s1 + 256
        then s1\<lparr>pk_buf := store (pk_buf s1) (pk_cur_subblock s1) 255,
                pk_cur_subblock := pk_p s1,
                pk_p := pk_p s1 + 1\<rparr>
        else s1)"

function emit_bytes_to_buffer :: "int \<Rightarrow> 'a packer_scheme \<Rightarrow> 'a packer_scheme" where
  "emit_bytes_to_buffer bit_block_size s =
    (if pk_cur_shift s \<ge> bit_block_size
     then emit_bytes_to_buffer bit_block_size (emit_byte s)
     else s)"
  by pat_completeness auto
termination
  by (relation "measure (\<lambda>(b, s). nat (pk_cur_shift s - b + 1))")
     (auto simp: emit_byte_def Let_def)

declare emit_bytes_to_buffer.simps [simp del]

definition emit_code :: "int \<Rightarrow> int \<Rightarrow> 'a packer_scheme \<Rightarrow> 'a packer_scheme" where
  "emit_code cur_code_size c s =
    emit_bytes_to_buffer 8
      (s\<lparr>pk_cur := js_or (pk_cur s) (js_shl c (pk_cur_shift s)),
         pk_cur_shift := pk_cur_shift s + cur_code_size\<rparr>)"

text \<open>
  The body of the main loop for one further input index.  The source inlines
  \<open>emit_code(ib_code)\<close> here; the inlined loop is the loop of
  \<open>emit_bytes_to_buffer(8)\<close>.
\<close>

definition encode_index :: "int \<Rightarrow> encoder \<Rightarrow> byte \<Rightarrow> encoder" where
  "encode_index min_code_size s x =
    (let clear_code = js_shl 1 min_code_size;
         code_mask = clear_code - 1;
         eoi_code = clear_code + 1;
         k = js_and (uint x) code_mask;
         cur_key = js_or (js_shl (en_ib_code s) 8) k
     in case en_code_table s cur_key of
          None \<Rightarrow>
            (let s1 = emit_code (en_cur_code_size s) (en_ib_code s) s;
                 s2 = (if en_next_code s1 = 4096
                       then (emit_code (en_cur_code_size s1) clear_code s1)
                              \<lparr>en_next_code := eoi_code + 1,
                               en_cur_code_size := min_code_size + 1,
                               en_code_table := Map.empty\<rparr>
                       else (let s' = (if en_next_code s1 \<ge> js_shl 1 (en_cur_code_size s1)
                                       then s1\<lparr>en_cur_code_size := en_cur_code_size s1 + 1\<rparr>
                                       else s1)
                             in s'\<lparr>en_code_table := (en_code_table s')(cur_key \<mapsto> en_next_code s'),
                                   en_next_code := en_next_code s' + 1\<rparr>))
             in s2\<lparr>en_ib_code := k\<rparr>)
        | Some cur_code \<Rightarrow> s\<lparr>en_ib_code := cur_code\<rparr>)"

definition encoder_init :: "byte list \<Rightarrow> int \<Rightarrow> int \<Rightarrow> byte list \<Rightarrow> encoder" where
  "encoder_init buf p min_code_size index_stream =
    (let clear_code = js_shl 1 min_code_size;
         code_mask = clear_code - 1;
         eoi_code = clear_code + 1
     in \<lparr>pk_buf = store buf p min_code_size,
         pk_p = p + 2,
         pk_cur_subblock = p + 1,
         pk_cur = 0,
         pk_cur_shift = 0,
         en_next_code = eoi_code + 1,
         en_cur_code_size = min_code_size + 1,
         en_ib_code = js_and (to_int32 (map_option uint (if index_stream = [] then None else Some (hd index_stream)))) code_mask,
         en_code_table = Map.empty\<rparr>)"

definition finish_subblocks :: "encoder \<Rightarrow> byte list \<times> int" where
  "finish_subblocks s =
    (if pk_cur_subblock s + 1 = pk_p s
     then (store (pk_buf s) (pk_cur_subblock s) 0, pk_p s)
     else (store (store (pk_buf s) (pk_cur_subblock s) (pk_p s - pk_cur_subblock s - 1)) (pk_p s) 0,
           pk_p s + 1))"

definition GifWriterOutputLZWCodeStream ::
  "byte list \<Rightarrow> int \<Rightarrow> int \<Rightarrow> byte list \<Rightarrow> byte list \<times> int" where
  "GifWriterOutputLZWCodeStream buf p min_code_size index_stream =
    (let clear_code = js_shl 1 min_code_size;
         eoi_code = clear_code + 1;
         s0 = encoder_init buf p min_code_size index_stream;
         s1 = emit_code (en_cur_code_size s0) clear_code s0;
         s2 = foldl (encode_index min_code_size) s1 (drop 1 index_stream);
         s3 = emit_code (en_cur_code_size s2) (en_ib_code s2) s2;
         s4 = emit_code (en_cur_code_size s3) eoi_code s3;
         s5 = emit_bytes_to_buffer 1 s4
     in finish_subblocks s5)"

section \<open>The container writer (writer.ts, GifWriter)\<close>

datatype gif_error =
    WidthHeightInvalid
  | InvalidPaletteLength
  | BackgroundOutOfRange
  | BackgroundZero
  | LoopCountInvalid
  | XYInvalid
  | NotEnoughPixels
  | NoPalette
  | DisposalOutOfRange
  | TransparentIndexInvalid

record writer_options =
  wo_palette :: "int list option"
  wo_loop :: "int option"
  wo_background :: "int option"

record frame_options =
  fo_palette :: "int list option"
  fo_delay :: "int option"
  fo_disposal :: "int option"
  fo_transparent :: "int option"

text \<open>The writer object: the variables its methods close over.\<close>

record writer =
  w_buf :: "byte list"
  w_p :: int
  w_ended :: bool
  w_global_palette :: "int list option"

definition check_palette_and_num_colors :: "int list \<Rightarrow> gif_error + nat" where
  "check_palette_and_num_colors palette =
    (let num_colors = length palette
     in if num_colors < 2 \<or> num_colors > 256
           \<or> js_and (int num_colors) (int num_colors - 1) \<noteq> 0
        then Inl InvalidPaletteLength
        else Inr num_colors)"

text \<open>
  \<open>while (n >>= 1) ++c\<close> on a palette length: the number of halvings until the
  value reaches zero, not counting the last.
\<close>

fun shift_count :: "nat \<Rightarrow> nat" where
  "shift_count n = (if n div 2 = 0 then 0 else Suc (shift_count (n div 2)))"

declare shift_count.simps [simp del]

definition color_table_bytes :: "int list \<Rightarrow> int list" where
  "color_table_bytes palette =
    concat (map (\<lambda>rgb. [js_and (js_sar rgb 16) 0xFF, js_and (js_sar rgb 8) 0xFF, js_and rgb 0xFF]) palette)"

text \<open>
  The constructor.  An exception leaves the caller's buffer as it is at the throw, so
  the error is returned together with that buffer.
\<close>

definition GifWriter ::
  "byte list \<Rightarrow> int \<Rightarrow> int \<Rightarrow> writer_options \<Rightarrow> (gif_error \<times> byte list) + writer" where
  "GifWriter buf width height opts =
    (let loop_count = wo_loop opts;
         global_palette = wo_palette opts
     in if width \<le> 0 \<or> height \<le> 0 \<or> width > 65535 \<or> height > 65535
        then Inl (WidthHeightInvalid, buf)
        else
          let bp1 = puts (buf, 0) [0x47, 0x49, 0x46, 0x38, 0x39, 0x61];
              gct = (case global_palette of
                       None \<Rightarrow> Inr (0, 0)
                     | Some gp \<Rightarrow>
                         (case check_palette_and_num_colors gp of
                            Inl e \<Rightarrow> Inl e
                          | Inr n \<Rightarrow>
                              (let pow2 = int (shift_count n);
                                   gp_num_colors = js_shl 1 pow2
                               in case wo_background opts of
                                    None \<Rightarrow> Inr (pow2 - 1, 0)
                                  | Some background \<Rightarrow>
                                      if background \<ge> gp_num_colors then Inl BackgroundOutOfRange
                                      else if background = 0 then Inl BackgroundZero
                                      else Inr (pow2 - 1, background))))
          in case gct of
               Inl e \<Rightarrow> Inl (e, fst bp1)
             | Inr (gp_num_colors_pow2, background) \<Rightarrow>
                 let bp2 = puts bp1
                       [js_and width 0xFF, js_and (js_sar width 8) 0xFF,
                        js_and height 0xFF, js_and (js_sar height 8) 0xFF,
                        js_or (if global_palette \<noteq> None then 0x80 else 0) gp_num_colors_pow2,
                        background, 0];
                     bp3 = (case global_palette of
                              None \<Rightarrow> bp2
                            | Some gp \<Rightarrow> puts bp2 (color_table_bytes gp))
                 in case loop_count of
                      None \<Rightarrow>
                        Inr \<lparr>w_buf = fst bp3, w_p = snd bp3, w_ended = False,
                             w_global_palette = global_palette\<rparr>
                    | Some lc \<Rightarrow>
                        if lc < 0 \<or> lc > 65535 then Inl (LoopCountInvalid, fst bp3)
                        else
                          let bp4 = puts bp3
                                [0x21, 0xFF, 0x0B,
                                 0x4E, 0x45, 0x54, 0x53, 0x43, 0x41, 0x50, 0x45, 0x32, 0x2E, 0x30,
                                 0x03, 0x01, js_and lc 0xFF, js_and (js_sar lc 8) 0xFF, 0x00]
                          in Inr \<lparr>w_buf = fst bp4, w_p = snd bp4, w_ended = False,
                                  w_global_palette = global_palette\<rparr>)"

text \<open>The first statement of \<open>addFrame\<close>: a finished stream is un-ended.\<close>

definition un_end :: "writer \<Rightarrow> writer" where
  "un_end wr = (if w_ended wr then wr\<lparr>w_p := w_p wr - 1, w_ended := False\<rparr> else wr)"

text \<open>
  \<open>addFrame\<close>: the writer after the call, and the exception thrown or the cursor
  returned.  The un-ending of a finished stream happens before any check.
\<close>

definition addFrame ::
  "writer \<Rightarrow> int \<Rightarrow> int \<Rightarrow> int \<Rightarrow> int \<Rightarrow> byte list \<Rightarrow> frame_options
     \<Rightarrow> writer \<times> (gif_error + int)" where
  "addFrame wr x y w h indexed_pixels opts =
    (let wr0 = un_end wr
     in if x < 0 \<or> y < 0 \<or> x > 65535 \<or> y > 65535 then (wr0, Inl XYInvalid)
        else if w \<le> 0 \<or> h \<le> 0 \<or> w > 65535 \<or> h > 65535 then (wr0, Inl WidthHeightInvalid)
        else if int (length indexed_pixels) < w * h then (wr0, Inl NotEnoughPixels)
        else
          let using_local_palette = (fo_palette opts \<noteq> None);
              palette = (case fo_palette opts of None \<Rightarrow> w_global_palette wr0 | Some lp \<Rightarrow> Some lp)
          in case palette of
               None \<Rightarrow> (wr0, Inl NoPalette)
             | Some pal \<Rightarrow>
                (case check_palette_and_num_colors pal of
                   Inl e \<Rightarrow> (wr0, Inl e)
                 | Inr n \<Rightarrow>
                    let min_code_size = int (shift_count n);
                        num_colors = js_shl 1 min_code_size;
                        delay = (case fo_delay opts of None \<Rightarrow> 0 | Some d \<Rightarrow> d);
                        disposal = (case fo_disposal opts of None \<Rightarrow> 0 | Some d \<Rightarrow> d)
                    in if disposal < 0 \<or> disposal > 3 then (wr0, Inl DisposalOutOfRange)
                       else
                         let use_transparency = (fo_transparent opts \<noteq> None);
                             transparent_index = (case fo_transparent opts of None \<Rightarrow> 0 | Some t \<Rightarrow> t)
                         in if use_transparency \<and> (transparent_index < 0 \<or> transparent_index \<ge> num_colors)
                            then (wr0, Inl TransparentIndexInvalid)
                            else
                              let bp0 = (w_buf wr0, w_p wr0);
                                  bp1 = (if disposal \<noteq> 0 \<or> use_transparency \<or> delay \<noteq> 0
                                         then puts bp0
                                                [0x21, 0xF9, 4,
                                                 js_or (js_shl disposal 2) (if use_transparency then 1 else 0),
                                                 js_and delay 0xFF, js_and (js_sar delay 8) 0xFF,
                                                 transparent_index, 0]
                                         else bp0);
                                  bp2 = puts bp1
                                          [0x2C,
                                           js_and x 0xFF, js_and (js_sar x 8) 0xFF,
                                           js_and y 0xFF, js_and (js_sar y 8) 0xFF,
                                           js_and w 0xFF, js_and (js_sar w 8) 0xFF,
                                           js_and h 0xFF, js_and (js_sar h 8) 0xFF,
                                           (if using_local_palette then js_or 0x80 (min_code_size - 1) else 0)];
                                  bp3 = (if using_local_palette then puts bp2 (color_table_bytes pal) else bp2);
                                  bp4 = GifWriterOutputLZWCodeStream (fst bp3) (snd bp3)
                                          (if min_code_size < 2 then 2 else min_code_size) indexed_pixels
                              in (wr0\<lparr>w_buf := fst bp4, w_p := snd bp4\<rparr>, Inr (snd bp4))))"

text \<open>\<open>end()\<close> (\<open>end\<close> is a keyword of the prover, hence the name).\<close>

definition end_writer :: "writer \<Rightarrow> writer \<times> int" where
  "end_writer wr =
    (if \<not> w_ended wr
     then (wr\<lparr>w_buf := store (w_buf wr) (w_p wr) 0x3B, w_p := w_p wr + 1, w_ended := True\<rparr>,
           w_p wr + 1)
     else (wr, w_p wr))"

section \<open>The LZW decoder (reader.ts, readerLZWOutputIndexStream)\<close>

text \<open>
  The code table is an \<open>Int32Array(4096)\<close>: zero at the start, a store outside it is
  dropped, and a load outside it is \<open>undefined\<close>, which the shifts and masks applied
  to every loaded entry turn into 0.  The sub-block counter becomes \<open>undefined\<close> or
  \<open>NaN\<close> once a length byte is read past the end of the buffer; it then compares
  unequal to 0 and to 1 forever (\<open>None\<close> below), and every further data byte is
  \<open>undefined\<close>, which \<open><<\<close> turns into 0.
\<close>

definition tbl_get :: "(int \<Rightarrow> int) \<Rightarrow> int \<Rightarrow> int" where
  "tbl_get t i = (if 0 \<le> i \<and> i < 4096 then t i else 0)"

definition tbl_set :: "(int \<Rightarrow> int) \<Rightarrow> int \<Rightarrow> int \<Rightarrow> (int \<Rightarrow> int)" where
  "tbl_set t i v = (if 0 \<le> i \<and> i < 4096 then t(i := js_int32 v) else t)"

record decoder =
  d_p :: int
  d_subblock_size :: "int option"
  d_cur :: int
  d_cur_shift :: int
  d_cur_code_size :: int
  d_code_mask :: int
  d_next_code :: int
  d_prev_code :: "int option"
  d_op :: int
  d_output :: "byte list"
  d_code_table :: "int \<Rightarrow> int"

datatype lzw_status = Complete | LongerThanExpected | ShorterThanExpected

text \<open>The inner loop \<open>while (cur_shift < 16)\<close> that refills the bit accumulator.\<close>

function read_bytes :: "byte list \<Rightarrow> decoder \<Rightarrow> decoder" where
  "read_bytes code_stream s =
    (if d_cur_shift s < 16 \<and> d_subblock_size s \<noteq> Some 0
     then read_bytes code_stream
            (let s1 = s\<lparr>d_cur := js_or (d_cur s) (js_shl (to_int32 (load code_stream (d_p s))) (d_cur_shift s)),
                        d_cur_shift := d_cur_shift s + 8,
                        d_p := d_p s + 1\<rparr>
             in if d_subblock_size s1 = Some 1
                then s1\<lparr>d_subblock_size := load code_stream (d_p s1), d_p := d_p s1 + 1\<rparr>
                else s1\<lparr>d_subblock_size := map_option (\<lambda>n. n - 1) (d_subblock_size s1)\<rparr>)
     else s)"
  by pat_completeness auto
termination
  by (relation "measure (\<lambda>(c, s). nat (16 - d_cur_shift s))") (auto simp: Let_def)

declare read_bytes.simps [simp del]

text \<open>
  The first chase, \<open>while (chase > clear_code)\<close>, which measures the length of the
  entry.  On a table with a cycle of prefixes it does not end; the result is then
  \<open>None\<close>.
\<close>

partial_function (option) chase_to_literal ::
  "(int \<Rightarrow> int) \<Rightarrow> int \<Rightarrow> int \<Rightarrow> nat \<Rightarrow> (int \<times> nat) option" where
  "chase_to_literal t clear_code chase chase_length =
    (if chase > clear_code
     then chase_to_literal t clear_code (js_sar (tbl_get t chase) 8) (Suc chase_length)
     else Some (chase, chase_length))"

declare chase_to_literal.simps [code]

text \<open>The second chase, \<open>while (chase_length--)\<close>, writing the entry backwards from \<open>b\<close>.\<close>

fun chase_write :: "(int \<Rightarrow> int) \<Rightarrow> nat \<Rightarrow> int \<Rightarrow> int \<Rightarrow> byte list \<Rightarrow> byte list" where
  "chase_write t 0 chase b output = output"
| "chase_write t (Suc n) chase b output =
    (let e = tbl_get t chase
     in chase_write t n (js_sar e 8) (b - 1) (store output (b - 1) (js_and e 0xFF)))"

text \<open>
  One round of the outer loop after the next code has been cut from the accumulator:
  \<open>Inl\<close> leaves the function (with the value of \<open>op\<close> when the loop is left by
  \<open>break\<close>, and with nothing on the early \<open>return\<close>), \<open>Inr\<close> goes round again.
  \<open>None\<close> is a chase that does not end.
\<close>

definition decode_code ::
  "int \<Rightarrow> int \<Rightarrow> decoder \<Rightarrow> int \<Rightarrow> ((byte list \<times> int option) + decoder) option" where
  "decode_code min_code_size output_length s code =
    (let clear_code = js_shl 1 min_code_size;
         eoi_code = clear_code + 1
     in if code = clear_code
        then Some (Inr (s\<lparr>d_next_code := eoi_code + 1,
                          d_cur_code_size := min_code_size + 1,
                          d_code_mask := js_shl 1 (min_code_size + 1) - 1,
                          d_prev_code := None\<rparr>))
        else if code = eoi_code then Some (Inl (d_output s, Some (d_op s)))
        else
          let chase_code = (if code < d_next_code s then Some code else d_prev_code s)
          in case chase_to_literal (d_code_table s) clear_code (to_int32 chase_code) 0 of
               None \<Rightarrow> None
             | Some (k, chase_length) \<Rightarrow>
                 let op_end = d_op s + int chase_length + (if chase_code \<noteq> Some code then 1 else 0)
                 in if op_end > output_length then Some (Inl (d_output s, None))
                    else
                      let out1 = store (d_output s) (d_op s) k;
                          op1 = d_op s + 1 + int chase_length;
                          b = op1;
                          out2 = (if chase_code \<noteq> Some code then store out1 op1 k else out1);
                          op2 = (if chase_code \<noteq> Some code then op1 + 1 else op1);
                          out3 = chase_write (d_code_table s) chase_length (to_int32 chase_code) b out2;
                          s1 = s\<lparr>d_output := out3, d_op := op2\<rparr>;
                          s2 = (if d_prev_code s1 \<noteq> None \<and> d_next_code s1 < 4096
                                then
                                  let s' = s1\<lparr>d_code_table :=
                                                 tbl_set (d_code_table s1) (d_next_code s1)
                                                   (js_or (js_shl (to_int32 (d_prev_code s1)) 8) k),
                                               d_next_code := d_next_code s1 + 1\<rparr>
                                  in if d_next_code s' \<ge> d_code_mask s' + 1 \<and> d_cur_code_size s' < 12
                                     then s'\<lparr>d_cur_code_size := d_cur_code_size s' + 1,
                                             d_code_mask := js_or (js_shl (d_code_mask s') 1) 1\<rparr>
                                     else s'
                                else s1)
                      in Some (Inr (s2\<lparr>d_prev_code := Some code\<rparr>)))"

partial_function (option) decode_loop ::
  "byte list \<Rightarrow> int \<Rightarrow> int \<Rightarrow> decoder \<Rightarrow> (byte list \<times> int option) option" where
  "decode_loop code_stream min_code_size output_length s =
    (let s1 = read_bytes code_stream s
     in if d_cur_shift s1 < d_cur_code_size s1 then Some (d_output s1, Some (d_op s1))
        else
          let code = js_and (d_cur s1) (d_code_mask s1);
              s2 = s1\<lparr>d_cur := js_sar (d_cur s1) (d_cur_code_size s1),
                      d_cur_shift := d_cur_shift s1 - d_cur_code_size s1\<rparr>
          in case decode_code min_code_size output_length s2 code of
               None \<Rightarrow> None
             | Some (Inl r) \<Rightarrow> Some r
             | Some (Inr s3) \<Rightarrow> decode_loop code_stream min_code_size output_length s3)"

declare decode_loop.simps [code]

text \<open>
  When the first read, of the minimum code size, is outside the buffer, the value is
  \<open>undefined\<close>: \<open>clear_code\<close> is \<open>1 << undefined = 1\<close>, \<open>cur_code_size\<close> is
  \<open>NaN\<close> and \<open>code_mask\<close> is \<open>(1 << NaN) - 1 = 0\<close>.  Every code cut from the
  accumulator is then \<open>cur & 0 = 0\<close>, which is below \<open>clear_code\<close>; \<open>cur_shift\<close>
  is \<open>NaN\<close> after the first cut, so that neither \<open>cur_shift < 16\<close> nor
  \<open>cur_shift < cur_code_size\<close> holds again, and \<open>cur_code_size < 12\<close> never holds, so
  that the mask stays 0.  Each round therefore stores one 0 at \<open>op\<close>, until
  \<open>op > output_length\<close> makes the function log that the stream is longer than
  expected and return.
\<close>

function decode_zero_rounds :: "byte list \<Rightarrow> int \<Rightarrow> int \<Rightarrow> byte list" where
  "decode_zero_rounds output op output_length =
    (if op > output_length then output
     else decode_zero_rounds (store output op 0) (op + 1) output_length)"
  by pat_completeness auto
termination
  by (relation "measure (\<lambda>(output, op, output_length). nat (output_length + 1 - op))") auto

declare decode_zero_rounds.simps [simp del]

text \<open>
  The whole function: the output array after the call and how the call ended.  The
  result is \<open>None\<close> when a chase does not end.
\<close>

definition readerLZWOutputIndexStream ::
  "byte list \<Rightarrow> int \<Rightarrow> byte list \<Rightarrow> int \<Rightarrow> (byte list \<times> lzw_status) option" where
  "readerLZWOutputIndexStream code_stream p output output_length =
    (case load code_stream p of
       None \<Rightarrow> Some (decode_zero_rounds output 0 output_length, LongerThanExpected)
     | Some min_code_size \<Rightarrow>
         (let clear_code = js_shl 1 min_code_size;
              eoi_code = clear_code + 1;
              s0 = \<lparr>d_p = p + 2,
                    d_subblock_size = load code_stream (p + 1),
                    d_cur = 0,
                    d_cur_shift = 0,
                    d_cur_code_size = min_code_size + 1,
                    d_code_mask = js_shl 1 (min_code_size + 1) - 1,
                    d_next_code = eoi_code + 1,
                    d_prev_code = None,
                    d_op = 0,
                    d_output = output,
                    d_code_table = (\<lambda>_. 0)\<rparr>
          in case decode_loop code_stream min_code_size output_length s0 of
               None \<Rightarrow> None
             | Some (out, None) \<Rightarrow> Some (out, LongerThanExpected)
             | Some (out, Some op) \<Rightarrow>
                 Some (out, if op \<noteq> output_length then ShorterThanExpected else Complete)))"

section \<open>The container parser (reader.ts, the constructor of Reader)\<close>

datatype parse_error =
    InvalidHeader
  | InvalidBlockSize
  | InvalidGraphicsExtension
  | UnknownGraphicControlLabel int
  | UnknownGifBlock int
  | TypeError
  | FrameIndexOutOfRange
  | NoPaletteForFrame

record frame =
  f_x :: int
  f_y :: int
  f_width :: int
  f_height :: int
  f_has_local_palette :: bool
  f_palette_offset :: "int option"
  f_palette_size :: "int option"
  f_data_offset :: int
  f_data_length :: int
  f_transparent_index :: "int option"
  f_interlaced :: bool
  f_delay :: int
  f_disposal :: int

record reader =
  r_frames :: "frame list"
  r_width :: int
  r_height :: int
  r_loop_count :: "int option"
  r_buffer :: "byte list"

text \<open>The local variables of the constructor that live across the block loop.\<close>

record parser =
  ps_p :: int
  ps_no_eof :: bool
  ps_delay :: int
  ps_transparent_index :: "int option"
  ps_disposal :: int
  ps_frames :: "frame list"
  ps_loop_count :: "int option"

text \<open>
  \<open>while (true)\<close> over sub-blocks: a length byte read outside the buffer is
  \<open>undefined\<close>, for which \<open>block_size >= 0\<close> is false.
\<close>

function skip_subblocks :: "byte list \<Rightarrow> int \<Rightarrow> parse_error + int" where
  "skip_subblocks buf p =
    (case load buf p of
       None \<Rightarrow> Inl InvalidBlockSize
     | Some block_size \<Rightarrow>
         if block_size = 0 then Inr (p + 1) else skip_subblocks buf (p + 1 + block_size))"
  by pat_completeness auto
termination
proof (relation "measure (\<lambda>(buf, p). nat (int (length buf) - p))")
  show "wf (measure (\<lambda>(buf, p). nat (int (length buf) - p)))" by simp
next
  fix buf :: "byte list" and p x2 :: int
  assume a: "load buf p = Some x2" "x2 \<noteq> 0"
  then have "0 \<le> x2" "0 \<le> p" "p < int (length buf)"
    by (auto simp: load_def split: if_splits)
  with a show "((buf, p + 1 + x2), buf, p) \<in> measure (\<lambda>(buf, p). nat (int (length buf) - p))"
    by simp
qed

declare skip_subblocks.simps [simp del]

text \<open>\<open>buf[p] | buf[p + 1] << 8\<close>\<close>

definition read_u16 :: "byte list \<Rightarrow> int \<Rightarrow> int" where
  "read_u16 buf p = js_or (to_int32 (load buf p)) (js_shl (to_int32 (load buf (p + 1))) 8)"

text \<open>
  The body of the block loop, one definition for each arm of the two \<open>switch\<close>
  statements; \<open>p\<close> is the cursor after the tag (and label) bytes have been read.
\<close>

definition is_netscape_branch :: "byte list \<Rightarrow> int \<Rightarrow> bool" where
  "is_netscape_branch buf p \<longleftrightarrow>
     load buf p \<noteq> Some 0x0B
     \<or> (load buf (p + 1) = Some 0x4E \<and> load buf (p + 2) = Some 0x45
        \<and> load buf (p + 3) = Some 0x54 \<and> load buf (p + 4) = Some 0x53
        \<and> load buf (p + 5) = Some 0x43 \<and> load buf (p + 6) = Some 0x41
        \<and> load buf (p + 7) = Some 0x50 \<and> load buf (p + 8) = Some 0x45
        \<and> load buf (p + 9) = Some 0x32 \<and> load buf (p + 10) = Some 0x2E
        \<and> load buf (p + 11) = Some 0x30
        \<and> load buf (p + 12) = Some 0x03 \<and> load buf (p + 13) = Some 0x01
        \<and> load buf (p + 16) = Some 0)"

definition parse_application_extension :: "byte list \<Rightarrow> parser \<Rightarrow> int \<Rightarrow> parse_error + parser" where
  "parse_application_extension buf s p =
    (if is_netscape_branch buf p
     then Inr (s\<lparr>ps_loop_count := Some (read_u16 buf (p + 14)), ps_p := p + 17\<rparr>)
     else (case skip_subblocks buf (p + 12) of
             Inl e \<Rightarrow> Inl e
           | Inr q \<Rightarrow> Inr (s\<lparr>ps_p := q\<rparr>)))"

definition parse_graphics_control_extension :: "byte list \<Rightarrow> parser \<Rightarrow> int \<Rightarrow> parse_error + parser" where
  "parse_graphics_control_extension buf s p =
    (if load buf p \<noteq> Some 0x4 \<or> load buf (p + 5) \<noteq> Some 0
     then Inl InvalidGraphicsExtension
     else
       let pf1 = to_int32 (load buf (p + 1))
       in Inr (s\<lparr>ps_delay := read_u16 buf (p + 2),
                  ps_transparent_index := (if js_and pf1 1 = 0 then None else load buf (p + 4)),
                  ps_disposal := js_and (js_sar pf1 2) 0x7,
                  ps_p := p + 6\<rparr>))"

definition parse_comment_extension :: "byte list \<Rightarrow> parser \<Rightarrow> int \<Rightarrow> parse_error + parser" where
  "parse_comment_extension buf s p =
    (case skip_subblocks buf p of
       Inl e \<Rightarrow> Inl e
     | Inr q \<Rightarrow> Inr (s\<lparr>ps_p := q\<rparr>))"

definition parse_image_descriptor ::
  "byte list \<Rightarrow> int option \<Rightarrow> int option \<Rightarrow> parser \<Rightarrow> int \<Rightarrow> parse_error + parser" where
  "parse_image_descriptor buf global_palette_offset global_palette_size s p0 =
    (let x = read_u16 buf p0;
         y = read_u16 buf (p0 + 2);
         w = read_u16 buf (p0 + 4);
         h = read_u16 buf (p0 + 6);
         pf2 = to_int32 (load buf (p0 + 8));
         p = p0 + 9;
         local_palette_flag = js_sar pf2 7;
         interlace_flag = js_and (js_sar pf2 6) 1;
         num_local_colors_pow2 = js_and pf2 0x7;
         num_local_colors = js_shl 1 (num_local_colors_pow2 + 1);
         data_offset = p;
         has_local_palette = (local_palette_flag \<noteq> 0);
         palette_offset = (if has_local_palette then Some p else global_palette_offset);
         palette_size = (if has_local_palette then Some num_local_colors else global_palette_size);
         p = (if has_local_palette then p + num_local_colors * 3 else p);
         p = p + 1
     in case skip_subblocks buf p of
          Inl e \<Rightarrow> Inl e
        | Inr q \<Rightarrow>
            Inr (s\<lparr>ps_p := q,
                   ps_frames := ps_frames s @
                     [\<lparr>f_x = x, f_y = y, f_width = w, f_height = h,
                       f_has_local_palette = has_local_palette,
                       f_palette_offset = palette_offset,
                       f_palette_size = palette_size,
                       f_data_offset = data_offset,
                       f_data_length = q - data_offset,
                       f_transparent_index = ps_transparent_index s,
                       f_interlaced = (interlace_flag \<noteq> 0),
                       f_delay = ps_delay s,
                       f_disposal = ps_disposal s\<rparr>]\<rparr>))"

definition parse_extension :: "byte list \<Rightarrow> parser \<Rightarrow> int \<Rightarrow> parse_error + parser" where
  "parse_extension buf s p =
    (case load buf p of
       None \<Rightarrow> Inl TypeError
     | Some label \<Rightarrow>
         if label = 0xFF then parse_application_extension buf s (p + 1)
         else if label = 0xF9 then parse_graphics_control_extension buf s (p + 1)
         else if label = 0x01 \<or> label = 0xFE then parse_comment_extension buf s (p + 1)
         else Inl (UnknownGraphicControlLabel label))"

definition parse_block ::
  "byte list \<Rightarrow> int option \<Rightarrow> int option \<Rightarrow> parser \<Rightarrow> parse_error + parser" where
  "parse_block buf global_palette_offset global_palette_size s =
    (case load buf (ps_p s) of
       None \<Rightarrow> Inl TypeError
     | Some tag \<Rightarrow>
         if tag = 0x21 then parse_extension buf s (ps_p s + 1)
         else if tag = 0x2C
           then parse_image_descriptor buf global_palette_offset global_palette_size s (ps_p s + 1)
         else if tag = 0x3B then Inr (s\<lparr>ps_p := ps_p s + 1, ps_no_eof := False\<rparr>)
         else Inl (UnknownGifBlock tag))"

text \<open>
  \<open>while (no_eof && p < buf.length)\<close>.  Every arm that does not throw moves the
  cursor forward, which is why the loop ends.
\<close>

function parse_blocks ::
  "byte list \<Rightarrow> int option \<Rightarrow> int option \<Rightarrow> parser \<Rightarrow> parse_error + parser" where
  "parse_blocks buf gpo gps s =
    (if ps_no_eof s \<and> ps_p s < int (length buf)
     then (case parse_block buf gpo gps s of
             Inl e \<Rightarrow> Inl e
           | Inr s' \<Rightarrow> parse_blocks buf gpo gps s')
     else Inr s)"
  by pat_completeness auto
termination
proof (relation "measure (\<lambda>(buf, gpo, gps, s). nat (int (length buf) - ps_p s))")
  show "wf (measure (\<lambda>(buf, gpo, gps, s). nat (int (length buf) - ps_p s)))" by simp
next
  fix buf :: "byte list" and gpo gps :: "int option" and s s' :: parser
  assume loop: "ps_no_eof s \<and> ps_p s < int (length buf)"
    and step: "parse_block buf gpo gps s = Inr s'"
  have skip: "p < q" if "skip_subblocks buf p = Inr q" for p q
    using that
  proof (induction buf p rule: skip_subblocks.induct)
    case (1 buf p)
    show ?case
    proof (cases "load buf p")
      case None
      with "1.prems" show ?thesis by (simp add: skip_subblocks.simps[of buf p])
    next
      case (Some n)
      have n0: "0 \<le> n" using Some by (auto simp: load_def split: if_splits)
      show ?thesis
      proof (cases "n = 0")
        case True
        with Some "1.prems" show ?thesis by (simp add: skip_subblocks.simps[of buf p])
      next
        case False
        with Some "1.prems" have "skip_subblocks buf (p + 1 + n) = Inr q"
          by (simp add: skip_subblocks.simps[of buf p])
        from "1.IH"[OF Some False this] n0 show ?thesis by simp
      qed
    qed
  qed
  have pos: "0 < js_shl 1 (js_and a 7 + 1)" for a
  proof -
    have "js_and a 7 = take_bit 3 (js_int32 a)"
      by (simp add: js_and_def js_int32_def take_bit_eq_mask mask_eq_exp_minus_1)
    then have "0 \<le> js_and a 7" "js_and a 7 < 8"
      using take_bit_int_less_exp[of 3 "js_int32 a"] by simp_all
    then have "js_and a 7 \<in> {0,1,2,3,4,5,6,7}" by auto
    then show ?thesis
      by (auto simp: js_shl_def js_int32_def)
  qed
  have app: "p < ps_p t" if "parse_application_extension buf s p = Inr t" for p t
    using that skip[of "p + 12"]
    by (auto simp: parse_application_extension_def split: if_splits sum.splits)
  have gce: "p < ps_p t" if "parse_graphics_control_extension buf s p = Inr t" for p t
    using that
    by (auto simp: parse_graphics_control_extension_def Let_def split: if_splits)
  have com: "p < ps_p t" if "parse_comment_extension buf s p = Inr t" for p t
    using that skip[of p]
    by (auto simp: parse_comment_extension_def split: sum.splits)
  have img: "p < ps_p t" if "parse_image_descriptor buf gpo gps s p = Inr t" for p t
  proof -
    let ?n = "js_shl 1 (js_and (to_int32 (load buf (p + 8))) 7 + 1)"
    let ?q = "(if js_sar (to_int32 (load buf (p + 8))) 7 \<noteq> 0 then p + 9 + ?n * 3 else p + 9) + 1"
    from that obtain q where q: "skip_subblocks buf ?q = Inr q" "ps_p t = q"
      by (auto simp: parse_image_descriptor_def Let_def split: sum.splits)
    from skip[OF q(1)] pos[of "to_int32 (load buf (p + 8))"] q(2) show ?thesis
      by (auto split: if_splits)
  qed
  have ext: "p < ps_p t" if "parse_extension buf s p = Inr t" for p t
    using that app[of "p + 1" t] gce[of "p + 1" t] com[of "p + 1" t]
    by (auto simp: parse_extension_def split: option.splits if_splits)
  have "ps_p s < ps_p s'"
    using step ext[of "ps_p s + 1" s'] img[of "ps_p s + 1" s']
    by (auto simp: parse_block_def split: option.splits if_splits)
  with loop show "((buf, gpo, gps, s'), buf, gpo, gps, s)
        \<in> measure (\<lambda>(buf, gpo, gps, s). nat (int (length buf) - ps_p s))"
    by simp
qed

declare parse_blocks.simps [simp del]

definition Reader :: "byte list \<Rightarrow> parse_error + reader" where
  "Reader buf =
    (if load buf 0 \<noteq> Some 0x47 \<or> load buf 1 \<noteq> Some 0x49 \<or> load buf 2 \<noteq> Some 0x46
        \<or> load buf 3 \<noteq> Some 0x38
        \<or> (case load buf 4 of None \<Rightarrow> 0 | Some b \<Rightarrow> js_and (b + 1) 0xFD) \<noteq> 0x38
        \<or> load buf 5 \<noteq> Some 0x61
     then Inl InvalidHeader
     else
       let width = read_u16 buf 6;
           height = read_u16 buf 8;
           pf0 = to_int32 (load buf 10);
           global_palette_flag = js_sar pf0 7;
           num_global_colors_pow2 = js_and pf0 0x7;
           num_global_colors = js_shl 1 (num_global_colors_pow2 + 1);
           p = 12;
           global_palette_offset = (if global_palette_flag \<noteq> 0 then Some p else None);
           global_palette_size = (if global_palette_flag \<noteq> 0 then Some num_global_colors else None);
           p = (if global_palette_flag \<noteq> 0 then p + num_global_colors * 3 else p)
       in case parse_blocks buf global_palette_offset global_palette_size
                 \<lparr>ps_p = p, ps_no_eof = True, ps_delay = 0, ps_transparent_index = None,
                  ps_disposal = 0, ps_frames = [], ps_loop_count = None\<rparr> of
            Inl e \<Rightarrow> Inl e
          | Inr s \<Rightarrow>
              Inr \<lparr>r_frames = ps_frames s, r_width = width, r_height = height,
                   r_loop_count = ps_loop_count s, r_buffer = buf\<rparr>)"

definition numFrames :: "reader \<Rightarrow> int" where
  "numFrames r = int (length (r_frames r))"

definition getLoopCount :: "reader \<Rightarrow> int option" where
  "getLoopCount r = r_loop_count r"

definition frameInfo :: "reader \<Rightarrow> int \<Rightarrow> parse_error + frame" where
  "frameInfo r frame_num =
    (if frame_num < 0 \<or> frame_num \<ge> int (length (r_frames r)) then Inl FrameIndexOutOfRange
     else Inr (r_frames r ! nat frame_num))"

section \<open>The frame compositor (reader.ts, decodeAndBlitFrameRGBA and decodeAndBlitFrameBGRA)\<close>

record blitter =
  bl_pixels :: "byte list"
  bl_op :: int
  bl_xleft :: int
  bl_scanstride :: int
  bl_interlaceskip :: int

text \<open>
  The start of the loop body, shared by both methods: at the end of a scan line the
  output cursor moves on by \<open>scanstride\<close>, and wraps to the next interlace pass once
  it has reached \<open>opend\<close>.
\<close>

definition blit_next_line :: "reader \<Rightarrow> frame \<Rightarrow> blitter \<Rightarrow> blitter" where
  "blit_next_line r frame s =
    (let framewidth = f_width frame;
         framestride = r_width r - framewidth;
         opbeg = ((f_y frame * r_width r) + f_x frame) * 4;
         opend = ((f_y frame + f_height frame) * r_width r + f_x frame) * 4
     in if bl_xleft s = 0
        then
          (let s1 = s\<lparr>bl_op := bl_op s + bl_scanstride s, bl_xleft := framewidth\<rparr>
           in if bl_op s1 \<ge> opend
              then s1\<lparr>bl_scanstride := framestride * 4 + r_width r * 4 * (bl_interlaceskip s1 - 1),
                      bl_op := opbeg + (framewidth + framestride) * js_shl (bl_interlaceskip s1) 1,
                      bl_interlaceskip := js_sar (bl_interlaceskip s1) 1\<rparr>
              else s1)
        else s)"

definition blit_init :: "reader \<Rightarrow> frame \<Rightarrow> byte list \<Rightarrow> blitter" where
  "blit_init r frame pixels =
    (let framewidth = f_width frame;
         framestride = r_width r - framewidth;
         opbeg = ((f_y frame * r_width r) + f_x frame) * 4;
         scanstride = framestride * 4
     in \<lparr>bl_pixels = pixels,
         bl_op = opbeg,
         bl_xleft = framewidth,
         bl_scanstride = (if f_interlaced frame then scanstride + r_width r * 4 * 7 else scanstride),
         bl_interlaceskip = 8\<rparr>)"

text \<open>The loop body of \<open>decodeAndBlitFrameRGBA\<close> for one index of the stream.\<close>

definition blit_index_rgba :: "reader \<Rightarrow> frame \<Rightarrow> int \<Rightarrow> int \<Rightarrow> blitter \<Rightarrow> byte \<Rightarrow> blitter" where
  "blit_index_rgba r frame palette_offset trans_index s0 ix =
    (let index = uint ix;
         s = blit_next_line r frame s0;
         s' = (if index = trans_index then s\<lparr>bl_op := bl_op s + 4\<rparr>
               else
                 let cr = to_int32 (load (r_buffer r) (palette_offset + index * 3));
                     cg = to_int32 (load (r_buffer r) (palette_offset + index * 3 + 1));
                     cb = to_int32 (load (r_buffer r) (palette_offset + index * 3 + 2));
                     bp = puts (bl_pixels s, bl_op s) [cr, cg, cb, 255]
                 in s\<lparr>bl_pixels := fst bp, bl_op := snd bp\<rparr>)
     in s'\<lparr>bl_xleft := bl_xleft s' - 1\<rparr>)"

text \<open>
  The loop body of \<open>decodeAndBlitFrameBGRA\<close>, which looks for the palette only when
  it needs a colour and throws from inside the loop.
\<close>

definition blit_index_bgra ::
  "reader \<Rightarrow> frame \<Rightarrow> int option \<Rightarrow> int \<Rightarrow> blitter \<Rightarrow> byte \<Rightarrow> (parse_error \<times> byte list) + blitter" where
  "blit_index_bgra r frame palette_offset trans_index s0 ix =
    (let index = uint ix;
         s = blit_next_line r frame s0
     in if index = trans_index then Inr (s\<lparr>bl_op := bl_op s + 4, bl_xleft := bl_xleft s - 1\<rparr>)
        else
          (case palette_offset of
             None \<Rightarrow> Inl (NoPaletteForFrame, bl_pixels s)
           | Some po \<Rightarrow>
               let cr = to_int32 (load (r_buffer r) (po + index * 3));
                   cg = to_int32 (load (r_buffer r) (po + index * 3 + 1));
                   cb = to_int32 (load (r_buffer r) (po + index * 3 + 2));
                   bp = puts (bl_pixels s, bl_op s) [cb, cg, cr, 255]
               in Inr (s\<lparr>bl_pixels := fst bp, bl_op := snd bp, bl_xleft := bl_xleft s - 1\<rparr>)))"

fun blit_loop_bgra ::
  "reader \<Rightarrow> frame \<Rightarrow> int option \<Rightarrow> int \<Rightarrow> blitter \<Rightarrow> byte list \<Rightarrow> (parse_error \<times> byte list) + blitter" where
  "blit_loop_bgra r frame palette_offset trans_index s [] = Inr s"
| "blit_loop_bgra r frame palette_offset trans_index s (ix # rest) =
    (case blit_index_bgra r frame palette_offset trans_index s ix of
       Inl e \<Rightarrow> Inl e
     | Inr s' \<Rightarrow> blit_loop_bgra r frame palette_offset trans_index s' rest)"

text \<open>
  The two methods.  The index stream is a fresh zeroed array that the decoder fills;
  the blit runs over all of it whatever the decoder reported.  An exception comes with
  the caller's pixel array as it is at the throw; \<open>None\<close> is a decoder that does not
  return.
\<close>

definition decodeAndBlitFrameRGBA ::
  "reader \<Rightarrow> int \<Rightarrow> byte list \<Rightarrow> ((parse_error \<times> byte list) + byte list) option" where
  "decodeAndBlitFrameRGBA r frame_num pixels =
    (case frameInfo r frame_num of
       Inl e \<Rightarrow> Some (Inl (e, pixels))
     | Inr frame \<Rightarrow>
         (let num_pixels = f_width frame * f_height frame
          in case readerLZWOutputIndexStream (r_buffer r) (f_data_offset frame)
                    (replicate (nat num_pixels) 0) num_pixels of
               None \<Rightarrow> None
             | Some (index_stream, status) \<Rightarrow>
                 (case f_palette_offset frame of
                    None \<Rightarrow> Some (Inl (NoPaletteForFrame, pixels))
                  | Some palette_offset \<Rightarrow>
                      (let trans_index = (case f_transparent_index frame of None \<Rightarrow> 256 | Some t \<Rightarrow> t)
                       in Some (Inr (bl_pixels
                            (foldl (blit_index_rgba r frame palette_offset trans_index)
                               (blit_init r frame pixels) index_stream)))))))"

definition decodeAndBlitFrameBGRA ::
  "reader \<Rightarrow> int \<Rightarrow> byte list \<Rightarrow> ((parse_error \<times> byte list) + byte list) option" where
  "decodeAndBlitFrameBGRA r frame_num pixels =
    (case frameInfo r frame_num of
       Inl e \<Rightarrow> Some (Inl (e, pixels))
     | Inr frame \<Rightarrow>
         (let num_pixels = f_width frame * f_height frame
          in case readerLZWOutputIndexStream (r_buffer r) (f_data_offset frame)
                    (replicate (nat num_pixels) 0) num_pixels of
               None \<Rightarrow> None
             | Some (index_stream, status) \<Rightarrow>
                 (let trans_index = (case f_transparent_index frame of None \<Rightarrow> 256 | Some t \<Rightarrow> t)
                  in case blit_loop_bgra r frame (f_palette_offset frame) trans_index
                            (blit_init r frame pixels) index_stream of
                       Inl e \<Rightarrow> Some (Inl e)
                     | Inr s \<Rightarrow> Some (Inr (bl_pixels s)))))"

section \<open>Auxiliary definitions for the statements below\<close>

text \<open>The condition under which the constructor of \<open>Reader\<close> rejects the header.\<close>

definition header_check_fails :: "byte list \<Rightarrow> bool" where
  "header_check_fails buf \<longleftrightarrow>
     load buf 0 \<noteq> Some 0x47 \<or> load buf 1 \<noteq> Some 0x49 \<or> load buf 2 \<noteq> Some 0x46
        \<or> load buf 3 \<noteq> Some 0x38
        \<or> (case load buf 4 of None \<Rightarrow> 0 | Some b \<Rightarrow> js_and (b + 1) 0xFD) \<noteq> 0x38
        \<or> load buf 5 \<noteq> Some 0x61"

text \<open>
  Concrete byte streams.  They are laid out as the constructor of \<open>Reader\<close> reads
  them: it takes the bytes at offsets 6 to 11 for the Logical Screen Descriptor and
  starts the block loop at offset 12.
\<close>

definition gce_then_two_frames :: "byte list" where
  "gce_then_two_frames =
     [0x47, 0x49, 0x46, 0x38, 0x39, 0x61, 1, 0, 1, 0, 0, 0,
      0x21, 0xF9, 0x04, 0x09, 0x0A, 0x00, 0x01, 0x00,
      0x2C, 0, 0, 0, 0, 1, 0, 1, 0, 0x00, 0x02, 0x02, 0x44, 0x01, 0x00,
      0x2C, 0, 0, 0, 0, 1, 0, 1, 0, 0x00, 0x02, 0x02, 0x44, 0x01, 0x00,
      0x3B]"

definition application_extension_size3 :: "byte list" where
  "application_extension_size3 =
     [0x47, 0x49, 0x46, 0x38, 0x39, 0x61, 1, 0, 1, 0, 0, 0,
      0x21, 0xFF, 0x03, 0x58, 0x59, 0x5A, 0x00,
      0x2C, 0, 0, 0, 0, 1, 0, 1, 0, 0x00, 0x02, 0x02, 0x44, 0x01, 0x00,
      0x3B]"

definition application_extension_size11 :: "byte list" where
  "application_extension_size11 =
     [0x47, 0x49, 0x46, 0x38, 0x39, 0x61, 1, 0, 1, 0, 0, 0,
      0x21, 0xFF, 0x0B, 0x58, 0x59, 0x5A, 0x58, 0x59, 0x5A, 0x58, 0x59, 0x5A, 0x58, 0x59, 0x00,
      0x2C, 0, 0, 0, 0, 1, 0, 1, 0, 0x00, 0x02, 0x02, 0x44, 0x01, 0x00,
      0x3B]"

definition interlaced_two_rows :: "byte list" where
  "interlaced_two_rows =
     [0x47, 0x49, 0x46, 0x38, 0x39, 0x61, 1, 0, 5, 0, 0x80, 0,
      1, 1, 1, 2, 2, 2,
      0x2C, 0, 0, 0, 0, 1, 0, 2, 0, 0x40, 0x02, 0x02, 0x44, 0x0A, 0x00,
      0x3B]"


text \<open>
  The bytes that \<open>addFrame\<close> stores before the compressed data: the Graphics Control
  Extension (only when delay, disposal or transparency are set), the image descriptor and
  the local palette; and what the encoder leaves alone, the part of the buffer below the
  length byte of its open sub-block.
\<close>

definition pk_above :: "byte list \<Rightarrow> nat \<Rightarrow> 'a packer_scheme \<Rightarrow> bool" where
  "pk_above buf k s \<longleftrightarrow>
     take k (pk_buf s) = take k buf \<and> length (pk_buf s) = length buf
       \<and> int k \<le> pk_cur_subblock s \<and> pk_cur_subblock s < pk_p s"

definition gce_bytes :: "frame_options \<Rightarrow> int list" where
  "gce_bytes opts =
    (let delay = (case fo_delay opts of None \<Rightarrow> 0 | Some d \<Rightarrow> d);
         disposal = (case fo_disposal opts of None \<Rightarrow> 0 | Some d \<Rightarrow> d);
         use_transparency = (fo_transparent opts \<noteq> None);
         transparent_index = (case fo_transparent opts of None \<Rightarrow> 0 | Some t \<Rightarrow> t)
     in if disposal \<noteq> 0 \<or> use_transparency \<or> delay \<noteq> 0
        then [0x21, 0xF9, 4,
              js_or (js_shl disposal 2) (if use_transparency then 1 else 0),
              js_and delay 0xFF, js_and (js_sar delay 8) 0xFF,
              transparent_index, 0]
        else [])"

definition descriptor_bytes :: "int \<Rightarrow> int \<Rightarrow> int \<Rightarrow> int \<Rightarrow> frame_options \<Rightarrow> int list \<Rightarrow> int list" where
  "descriptor_bytes x y w h opts pal =
     [0x2C,
      js_and x 0xFF, js_and (js_sar x 8) 0xFF,
      js_and y 0xFF, js_and (js_sar y 8) 0xFF,
      js_and w 0xFF, js_and (js_sar w 8) 0xFF,
      js_and h 0xFF, js_and (js_sar h 8) 0xFF,
      (if fo_palette opts \<noteq> None then js_or 0x80 (int (shift_count (length pal)) - 1) else 0)]"

definition local_palette_bytes :: "frame_options \<Rightarrow> int list \<Rightarrow> int list" where
  "local_palette_bytes opts pal = (if fo_palette opts \<noteq> None then color_table_bytes pal else [])"

definition frame_start ::
  "byte list \<times> int \<Rightarrow> int \<Rightarrow> int \<Rightarrow> int \<Rightarrow> int \<Rightarrow> frame_options \<Rightarrow> int list \<Rightarrow> byte list \<times> int" where
  "frame_start bp x y w h opts pal =
     puts (puts (puts bp (gce_bytes opts)) (descriptor_bytes x y w h opts pal))
       (local_palette_bytes opts pal)"

section \<open>Auxiliary definitions for the round trip of the LZW coder\<close>

text \<open>
  The value of a list of bytes, least significant byte first, and of a list of codes
  with their widths, least significant code first: the encoder packs the codes into the
  bytes from the low bits on.
\<close>

fun bytes_val :: "int list \<Rightarrow> int" where
  "bytes_val [] = 0"
| "bytes_val (b # bs) = b + 256 * bytes_val bs"

fun pack :: "(int \<times> nat) list \<Rightarrow> int" where
  "pack [] = 0"
| "pack ((c, w) # cs) = c + 2 ^ w * pack cs"

fun nbits :: "(int \<times> nat) list \<Rightarrow> nat" where
  "nbits [] = 0"
| "nbits ((c, w) # cs) = w + nbits cs"

text \<open>
  The layout of the data sub-blocks.  With the minimum code size at \<open>p0\<close>, data byte
  \<open>i\<close> of the stream lies at \<open>pos p0 i\<close>, the length byte of sub-block
  \<open>j\<close> at \<open>p0 + 1 + 256 * j\<close>, and the terminator at \<open>term_pos p0 N\<close> after
  \<open>N\<close> data bytes.  \<open>LAY\<close> describes the buffer while the encoder runs (the
  length byte of the open sub-block is not yet written), \<open>ACC\<close> its bit accumulator,
  \<open>PKS\<close> both together with the value and the number of the bits emitted so far, and
  \<open>Framed\<close> the finished stream.
\<close>

definition pos :: "nat \<Rightarrow> nat \<Rightarrow> nat" where
  "pos p0 i = p0 + 2 + i + i div 255"

definition term_pos :: "nat \<Rightarrow> nat \<Rightarrow> nat" where
  "term_pos p0 N = p0 + 1 + N + (N + 254) div 255"

definition LAY :: "byte list \<Rightarrow> nat \<Rightarrow> int list \<Rightarrow> 'a packer_scheme \<Rightarrow> bool" where
  "LAY B p0 ds s \<longleftrightarrow>
      length (pk_buf s) = length B
    \<and> (\<forall>i \<le> p0. pk_buf s ! i = B ! i)
    \<and> pk_cur_subblock s = int (p0 + 1 + 256 * (length ds div 255))
    \<and> pk_p s = int (pos p0 (length ds))
    \<and> pos p0 (length ds) \<le> length B
    \<and> (\<forall>i < length ds. uint (pk_buf s ! pos p0 i) = ds ! i)
    \<and> (\<forall>j < length ds div 255. uint (pk_buf s ! (p0 + 1 + 256 * j)) = 255)
    \<and> (\<forall>b \<in> set ds. 0 \<le> b \<and> b < 256)"

definition ACC :: "nat \<Rightarrow> 'a packer_scheme \<Rightarrow> bool" where
  "ACC sh s \<longleftrightarrow> pk_cur_shift s = int sh \<and> sh < 20 \<and> 0 \<le> pk_cur s \<and> pk_cur s < 2 ^ sh"

definition pk_val :: "int list \<Rightarrow> 'a packer_scheme \<Rightarrow> int" where
  "pk_val ds s = bytes_val ds + 256 ^ length ds * pk_cur s"

definition PKS :: "byte list \<Rightarrow> nat \<Rightarrow> 'a packer_scheme \<Rightarrow> int \<Rightarrow> nat \<Rightarrow> bool" where
  "PKS B p0 s V n \<longleftrightarrow>
     (\<exists>ds sh. LAY B p0 ds s \<and> ACC sh s \<and> sh < 8 \<and> pk_val ds s = V \<and> 8 * length ds + sh = n)"

definition Framed :: "byte list \<Rightarrow> nat \<Rightarrow> int list \<Rightarrow> bool" where
  "Framed buf p0 ds \<longleftrightarrow>
      term_pos p0 (length ds) < length buf
    \<and> (\<forall>i < length ds. uint (buf ! pos p0 i) = ds ! i)
    \<and> (\<forall>j. 255 * j < length ds \<longrightarrow>
          uint (buf ! (p0 + 1 + 256 * j)) = min 255 (int (length ds) - 255 * int j))
    \<and> uint (buf ! term_pos p0 (length ds)) = 0
    \<and> (\<forall>b \<in> set ds. 0 \<le> b \<and> b < 256)"

text \<open>
  One round of the refill loop of the decoder, and the state of its bit source: after
  \<open>n\<close> data bytes have been read, with \<open>sh\<close> bits in the accumulator, the bits
  not yet cut off have the value \<open>R\<close> and there are \<open>nb\<close> of them.
\<close>

definition rd_step :: "byte list \<Rightarrow> decoder \<Rightarrow> decoder" where
  "rd_step code_stream s =
     (let s1 = s\<lparr>d_cur := js_or (d_cur s) (js_shl (to_int32 (load code_stream (d_p s))) (d_cur_shift s)),
                 d_cur_shift := d_cur_shift s + 8,
                 d_p := d_p s + 1\<rparr>
      in if d_subblock_size s1 = Some 1
         then s1\<lparr>d_subblock_size := load code_stream (d_p s1), d_p := d_p s1 + 1\<rparr>
         else s1\<lparr>d_subblock_size := map_option (\<lambda>n. n - 1) (d_subblock_size s1)\<rparr>)"

definition SRCn :: "nat \<Rightarrow> int list \<Rightarrow> decoder \<Rightarrow> nat \<Rightarrow> nat \<Rightarrow> bool" where
  "SRCn p0 ds d n sh \<longleftrightarrow>
      n \<le> length ds \<and> d_cur_shift d = int sh \<and> sh < 24 \<and> 0 \<le> d_cur d \<and> d_cur d < 2 ^ sh
    \<and> (if n < length ds
        then d_p d = int (pos p0 n)
           \<and> d_subblock_size d =
               Some (min 255 (int (length ds) - 255 * int (n div 255)) - int (n mod 255))
        else d_subblock_size d = Some 0)"

definition SRC :: "nat \<Rightarrow> int list \<Rightarrow> decoder \<Rightarrow> int \<Rightarrow> nat \<Rightarrow> bool" where
  "SRC p0 ds d R nb \<longleftrightarrow>
     (\<exists>n sh. SRCn p0 ds d n sh \<and> R = d_cur d + 2 ^ sh * bytes_val (drop n ds)
        \<and> nb = sh + 8 * (length ds - n))"

definition same_src :: "decoder \<Rightarrow> decoder \<Rightarrow> bool" where
  "same_src d d' \<longleftrightarrow> d_p d' = d_p d \<and> d_subblock_size d' = d_subblock_size d
      \<and> d_cur d' = d_cur d \<and> d_cur_shift d' = d_cur_shift d"

definition same_dict :: "decoder \<Rightarrow> decoder \<Rightarrow> bool" where
  "same_dict d d' \<longleftrightarrow> d_cur_code_size d' = d_cur_code_size d \<and> d_code_mask d' = d_code_mask d
      \<and> d_next_code d' = d_next_code d \<and> d_prev_code d' = d_prev_code d
      \<and> d_op d' = d_op d \<and> d_output d' = d_output d \<and> d_code_table d' = d_code_table d"

text \<open>
  The string of a code in a dictionary \<open>D\<close>, which maps a code to
  \<open>prefix code * 256 + last index\<close>; the output array after the string \<open>w\<close> has been
  written at \<open>o'\<close>; and the part of the decoder's round that adds an entry.
\<close>

inductive phrase :: "nat \<Rightarrow> (int \<Rightarrow> int) \<Rightarrow> int \<Rightarrow> int list \<Rightarrow> bool"
  for m :: nat and D :: "int \<Rightarrow> int" where
  lit: "0 \<le> c \<Longrightarrow> c < 2 ^ m \<Longrightarrow> phrase m D c [c]"
| ent: "2 ^ m + 2 \<le> c \<Longrightarrow> 0 \<le> D c \<Longrightarrow> D c < 1048576 \<Longrightarrow> D c div 256 < c
        \<Longrightarrow> phrase m D (D c div 256) w \<Longrightarrow> phrase m D c (w @ [D c mod 256])"

definition OUTW :: "byte list \<Rightarrow> nat \<Rightarrow> int list \<Rightarrow> byte list \<Rightarrow> bool" where
  "OUTW out o' w out' \<longleftrightarrow>
      length out' = length out
    \<and> (\<forall>i < o'. out' ! i = out ! i)
    \<and> (\<forall>j < length w. out' ! (o' + j) = word_of_int (w ! j))"

definition dec_insert :: "decoder \<Rightarrow> int \<Rightarrow> decoder" where
  "dec_insert s1 k =
     (if d_prev_code s1 \<noteq> None \<and> d_next_code s1 < 4096
      then
        let s' = s1\<lparr>d_code_table :=
                       tbl_set (d_code_table s1) (d_next_code s1)
                         (js_or (js_shl (to_int32 (d_prev_code s1)) 8) k),
                     d_next_code := d_next_code s1 + 1\<rparr>
        in if d_next_code s' \<ge> d_code_mask s' + 1 \<and> d_cur_code_size s' < 12
           then s'\<lparr>d_cur_code_size := d_cur_code_size s' + 1,
                   d_code_mask := js_or (js_shl (d_code_mask s') 1) 1\<rparr>
           else s'
      else s1)"

text \<open>
  The encoder seen from its dictionary: the key looked up for the next index, the codes
  that one round and a whole run emit (with the widths they are emitted at), the
  invariant of the dictionary, the relation between the encoder's and the decoder's
  dictionary (the decoder is one entry behind), the decoder's output so far, and the
  encoder's run from a given state to the end-of-information code.
\<close>

definition enc_k :: "int \<Rightarrow> byte \<Rightarrow> int" where
  "enc_k m x = js_and (uint x) (js_shl 1 m - 1)"

definition enc_key :: "int \<Rightarrow> encoder \<Rightarrow> byte \<Rightarrow> int" where
  "enc_key m s x = js_or (js_shl (en_ib_code s) 8) (enc_k m x)"

definition step_codes :: "int \<Rightarrow> encoder \<Rightarrow> byte \<Rightarrow> (int \<times> nat) list" where
  "step_codes m s x =
     (case en_code_table s (enc_key m s x) of
        Some c \<Rightarrow> []
      | None \<Rightarrow>
          if en_next_code s = 4096
          then [(en_ib_code s, nat (en_cur_code_size s)), (js_shl 1 m, nat (en_cur_code_size s))]
          else [(en_ib_code s, nat (en_cur_code_size s))])"

fun enc_codes :: "int \<Rightarrow> encoder \<Rightarrow> byte list \<Rightarrow> (int \<times> nat) list" where
  "enc_codes m s [] =
     [(en_ib_code s, nat (en_cur_code_size s)), (js_shl 1 m + 1, nat (en_cur_code_size s))]"
| "enc_codes m s (x # xs) = step_codes m s x @ enc_codes m (encode_index m s x) xs"

definition EI :: "nat \<Rightarrow> (int \<Rightarrow> int) \<Rightarrow> encoder \<Rightarrow> bool" where
  "EI m D s \<longleftrightarrow>
      2 ^ m + 2 \<le> en_next_code s \<and> en_next_code s \<le> 4096
    \<and> (\<exists>cs. en_cur_code_size s = int cs \<and> m + 1 \<le> cs \<and> cs \<le> 12 \<and> en_next_code s \<le> 2 ^ cs)
    \<and> (\<forall>key c. en_code_table s key = Some c
                 \<longleftrightarrow> 2 ^ m + 2 \<le> c \<and> c < en_next_code s \<and> D c = key)
    \<and> (\<forall>c. 2 ^ m + 2 \<le> c \<and> c < en_next_code s
             \<longrightarrow> 0 \<le> D c \<and> D c < 1048576 \<and> D c div 256 < c)
    \<and> en_ib_code s < en_next_code s"

definition Rel :: "nat \<Rightarrow> (int \<Rightarrow> int) \<Rightarrow> encoder \<Rightarrow> decoder \<Rightarrow> int \<Rightarrow> bool" where
  "Rel m D s d h \<longleftrightarrow>
      d_cur_code_size d = en_cur_code_size s
    \<and> (\<exists>cs. en_cur_code_size s = int cs \<and> d_code_mask d = 2 ^ cs - 1)
    \<and> (\<forall>c. 2 ^ m + 2 \<le> c \<and> c < d_next_code d \<longrightarrow> d_code_table d c = D c)
    \<and> 2 ^ m + 2 \<le> d_next_code d
    \<and> ((d_prev_code d = None \<and> d_next_code d = en_next_code s \<and> en_next_code s = 2 ^ m + 2
          \<and> en_cur_code_size s = int (m + 1))
       \<or> (\<exists>pc. d_prev_code d = Some pc \<and> d_next_code d + 1 = en_next_code s
              \<and> D (d_next_code d) = pc * 256 + h \<and> 0 \<le> pc \<and> pc < 4096))"

definition OUTI :: "byte list \<Rightarrow> decoder \<Rightarrow> nat \<Rightarrow> bool" where
  "OUTI idx d o' \<longleftrightarrow>
     d_op d = int o' \<and> length (d_output d) = length idx \<and> (\<forall>i < o'. d_output d ! i = idx ! i)"

definition enc_tail :: "int \<Rightarrow> encoder \<Rightarrow> byte list \<Rightarrow> encoder" where
  "enc_tail m s xs =
     (let s2 = foldl (encode_index m) s xs;
          s3 = emit_code (en_cur_code_size s2) (en_ib_code s2) s2
      in emit_code (en_cur_code_size s3) (js_shl 1 m + 1) s3)"

section \<open>Basic facts about the buffer operations and the number conversions\<close>

lemma js_int32_id: "- (2 ^ 31) \<le> a \<Longrightarrow> a < 2 ^ 31 \<Longrightarrow> js_int32 a = a"
  unfolding js_int32_def by (rule signed_take_bit_int_eq_self)

lemma js_int32_nonneg: "0 \<le> a \<Longrightarrow> a < 2147483648 \<Longrightarrow> js_int32 a = a"
  by (rule js_int32_id) simp_all

lemma length_store [simp]: "length (store b i v) = length b"
  by (simp add: store_def)

lemma store_int [simp]: "store b (int n) v = b[n := word_of_int v]"
  by (simp add: store_def list_update_beyond)

lemma puts_Nil [simp]: "puts bp [] = bp"
  by (simp add: puts_def)

lemma puts_Cons: "puts bp (v # vs) = puts (store (fst bp) (snd bp) v, snd bp + 1) vs"
  by (simp add: puts_def put_def)

lemma snd_puts [simp]: "snd (puts bp vs) = snd bp + int (length vs)"
  by (induction vs arbitrary: bp) (simp_all add: puts_Cons)

lemma length_fst_puts [simp]: "length (fst (puts bp vs)) = length (fst bp)"
  by (induction vs arbitrary: bp) (simp_all add: puts_Cons)

lemma take_store: "int n \<le> i \<Longrightarrow> take n (store b i v) = take n b"
  by (simp add: store_def)

lemma take_puts: "int n \<le> snd bp \<Longrightarrow> take n (fst (puts bp vs)) = take n (fst bp)"
  by (induction vs arbitrary: bp) (simp_all add: take_store puts_Cons)

lemma header_puts:
  "6 \<le> length buf \<Longrightarrow>
   take 6 (fst (puts (buf, 0) [0x47, 0x49, 0x46, 0x38, 0x39, 0x61])) = [0x47, 0x49, 0x46, 0x38, 0x39, 0x61]"
  apply (cases buf; simp add: puts_Cons)
  subgoal for a1 l1 apply (cases l1; simp add: store_def)
  subgoal for a2 l2 apply (cases l2; simp add: store_def)
  subgoal for a3 l3 apply (cases l3; simp add: store_def)
  subgoal for a4 l4 apply (cases l4; simp add: store_def)
  subgoal for a5 l5 apply (cases l5; simp add: store_def)
  done done done done done done

lemma and_253: "0 \<le> x \<Longrightarrow> x < 256 \<Longrightarrow> ((x + 1) AND 253 = (56::int)) = (x = 55 \<or> x = 57)"
proof -
  assume a: "0 \<le> x" "x < 256"
  define y where "y = x + 1"
  have y: "0 \<le> y" "y \<le> 256" using a by (simp_all add: y_def)
  have "(y AND 253 = 56) = (y = 56 \<or> y = 58)"
  proof
    assume h: "y AND 253 = 56"
    have "y \<noteq> 256" using h by auto
    then have "y < 2 ^ 8" using y by simp
    then have "take_bit 8 y = y" using y by (simp add: take_bit_int_eq_self)
    then have "y = y AND 255" by (simp add: take_bit_eq_mask mask_eq_exp_minus_1)
    also have "\<dots> = y AND (253 OR 2)" by simp
    also have "\<dots> = (y AND 253) OR (y AND 2)" by (simp only: bit.conj_disj_distrib)
    finally have e: "y = 56 OR (y AND 2)" using h by simp
    have "0 \<le> y AND 2" "y AND 2 \<le> 2" "even (y AND 2)"
      using y by (simp_all add: AND_upper2 even_and_iff)
    then have "y AND 2 = 0 \<or> y AND 2 = 2" by presburger
    with e show "y = 56 \<or> y = 58" by auto
  next
    assume "y = 56 \<or> y = 58" then show "y AND 253 = 56" by auto
  qed
  then show ?thesis by (auto simp: y_def)
qed

section \<open>Facts about the parser and the palette check\<close>

lemma skip_subblocks_error: "skip_subblocks buf p = Inl e \<Longrightarrow> e = InvalidBlockSize"
proof (induction buf p rule: skip_subblocks.induct)
  case (1 buf p)
  then show ?case
    by (cases "load buf p") (auto simp: skip_subblocks.simps[of buf p] split: if_splits)
qed

lemma parse_arms_error:
  "parse_application_extension buf s p \<noteq> Inl InvalidHeader"
  "parse_graphics_control_extension buf s p \<noteq> Inl InvalidHeader"
  "parse_comment_extension buf s p \<noteq> Inl InvalidHeader"
  "parse_image_descriptor buf gpo gps s p \<noteq> Inl InvalidHeader"
  by (auto simp: parse_application_extension_def parse_graphics_control_extension_def
        parse_comment_extension_def parse_image_descriptor_def Let_def
      split: sum.splits dest: skip_subblocks_error)

lemma parse_extension_error: "parse_extension buf s p \<noteq> Inl InvalidHeader"
  by (simp add: parse_extension_def parse_arms_error split: option.splits)

lemma parse_block_not_header: "parse_block buf gpo gps s \<noteq> Inl InvalidHeader"
  by (simp add: parse_block_def parse_extension_error parse_arms_error split: option.splits)

lemma parse_blocks_not_header: "parse_blocks buf gpo gps s \<noteq> Inl InvalidHeader"
proof (induction buf gpo gps s rule: parse_blocks.induct)
  case (1 buf gpo gps s)
  show ?case
  proof (cases "ps_no_eof s \<and> ps_p s < int (length buf)")
    case False
    then show ?thesis by (subst parse_blocks.simps) auto
  next
    case True
    show ?thesis
    proof (cases "parse_block buf gpo gps s")
      case (Inl e)
      with parse_block_not_header[of buf gpo gps s] have "e \<noteq> InvalidHeader" by auto
      with Inl True show ?thesis by (subst parse_blocks.simps) simp
    next
      case (Inr s')
      from "1.IH"[OF True Inr] Inr True show ?thesis by (subst parse_blocks.simps) simp
    qed
  qed
qed

lemma Reader_header: "Reader buf = Inl InvalidHeader \<longleftrightarrow> header_check_fails buf"
  unfolding Reader_def header_check_fails_def Let_def
  using parse_blocks_not_header
  by (auto split: sum.splits)

lemma header_check_fails_iff:
  "header_check_fails buf \<longleftrightarrow>
     take 6 buf \<noteq> [0x47, 0x49, 0x46, 0x38, 0x37, 0x61] \<and> take 6 buf \<noteq> [0x47, 0x49, 0x46, 0x38, 0x39, 0x61]"
proof (cases "6 \<le> length buf")
  case False
  then have "length (take 6 buf) < 6" by simp
  then have ne: "take 6 buf \<noteq> [0x47, 0x49, 0x46, 0x38, 0x37, 0x61]" "take 6 buf \<noteq> [0x47, 0x49, 0x46, 0x38, 0x39, 0x61]"
    by auto
  from False have "load buf 5 = None" by (simp add: load_def)
  then have "header_check_fails buf" by (simp add: header_check_fails_def)
  with ne show ?thesis by simp
next
  case True
  then have "\<exists>b0 b1 b2 b3 b4 b5 rest. buf = b0 # b1 # b2 # b3 # b4 # b5 # rest"
    by (auto simp: numeral_eq_Suc Suc_le_length_iff)
  then obtain b0 b1 b2 b3 b4 b5 rest where buf: "buf = b0 # b1 # b2 # b3 # b4 # b5 # rest"
    by blast
  have b4: "(js_and (uint b4 + 1) 0xFD = 0x38) = (b4 = 0x37 \<or> b4 = 0x39)"
  proof -
    have r: "0 \<le> uint b4" "uint b4 < 256" using uint_bounded[of b4] by simp_all
    then have "js_int32 (uint b4 + 1) = uint b4 + 1" by (intro js_int32_id) simp_all
    moreover have "js_int32 0xFD = 0xFD" by (intro js_int32_id) simp_all
    ultimately have "js_and (uint b4 + 1) 0xFD = (uint b4 + 1) AND 253" by (simp add: js_and_def)
    with and_253[OF r] show ?thesis by (simp add: word_uint_eq_iff)
  qed
  show ?thesis
    unfolding header_check_fails_def buf
    using b4 by (auto simp add: load_def word_uint_eq_iff)
qed


lemma and_pred_zero_pow2: "0 < (n::nat) \<Longrightarrow> int n AND (int n - 1) = 0 \<Longrightarrow> \<exists>k. n = 2 ^ k"
proof (induction n rule: less_induct)
  case (less n)
  show ?case
  proof (cases "n = 1")
    case True
    then have "n = 2 ^ 0" by simp
    then show ?thesis by blast
  next
    case False
    with less.prems have n2: "2 \<le> n" by simp
    show ?thesis
    proof (cases "even n")
      case True
      then obtain m where m: "n = 2 * m" by (auto elim: evenE)
      with n2 have m0: "0 < m" by simp
      have "(2 * int m - 1) div 2 = int m - 1" by linarith
      then have "int n AND (int n - 1) = 2 * (int m AND (int m - 1))"
        by (subst and_int_rec) (simp add: m)
      with less.prems have "int m AND (int m - 1) = 0" by simp
      from less.IH[OF _ m0 this] m m0 obtain k where "m = 2 ^ k" by auto
      with m have "n = 2 ^ Suc k" by simp
      then show ?thesis by blast
    next
      case False
      then obtain m where m: "n = 2 * m + 1" by (auto elim: oddE)
      with n2 have m0: "0 < m" by simp
      have "int n AND (int n - 1) = 2 * (int m AND int m)"
        by (subst and_int_rec) (simp add: m)
      with less.prems m0 show ?thesis by simp
    qed
  qed
qed

lemma shift_count_pow2 [simp]: "shift_count (2 ^ k) = k"
proof (induction k)
  case 0
  show ?case by (subst shift_count.simps) simp
next
  case (Suc k)
  have "shift_count (2 ^ Suc k) = Suc (shift_count (2 ^ k))"
    by (subst shift_count.simps) simp
  with Suc show ?case by simp
qed

lemma js_shl_1: "0 \<le> k \<Longrightarrow> k \<le> 30 \<Longrightarrow> js_shl 1 k = 2 ^ nat k"
proof -
  assume k: "0 \<le> k" "k \<le> 30"
  then have "(2::int) ^ nat k \<le> 2 ^ 30" by (intro power_increasing) simp_all
  then have "(2::int) ^ nat k < 2147483648" by simp
  then have "js_int32 (2 ^ nat k) = 2 ^ nat k" by (intro js_int32_nonneg) simp_all
  with k show ?thesis by (simp add: js_shl_def push_bit_eq_mult)
qed

lemma check_palette_pow2:
  assumes "check_palette_and_num_colors pal = Inr n"
  shows "n = length pal" "\<exists>k. 1 \<le> k \<and> k \<le> 8 \<and> n = 2 ^ k"
proof -
  from assms have n: "n = length pal" "2 \<le> n" "n \<le> 256" "js_and (int n) (int n - 1) = 0"
    by (auto simp: check_palette_and_num_colors_def Let_def split: if_splits)
  show "n = length pal" by fact
  have "js_int32 (int n) = int n" "js_int32 (int n - 1) = int n - 1"
    using n by (auto intro!: js_int32_id)
  with n have "int n AND (int n - 1) = 0" by (simp add: js_and_def)
  moreover have "0 < n" using n(2) by linarith
  ultimately obtain k where k: "n = 2 ^ k" using and_pred_zero_pow2[of n] by blast
  have "k \<le> 8"
  proof (rule ccontr)
    assume "\<not> k \<le> 8"
    then have "9 \<le> k" by simp
    then have "(2::nat) ^ 9 \<le> 2 ^ k" by (intro power_increasing) simp_all
    with k n show False by simp
  qed
  moreover have "1 \<le> k" using k n by (cases k) simp_all
  ultimately show "\<exists>k. 1 \<le> k \<and> k \<le> 8 \<and> n = 2 ^ k" using k by blast
qed

section \<open>Facts about the writer\<close>

lemma GifWriter_header:
  "6 \<le> length buf \<Longrightarrow> GifWriter buf width height opts = Inr wr \<Longrightarrow>
   take 6 (w_buf wr) = [0x47, 0x49, 0x46, 0x38, 0x39, 0x61]"
  unfolding GifWriter_def Let_def
  by (auto split: if_splits option.splits sum.splits prod.splits simp: take_puts header_puts)

lemma js_shl_1_shift_count:
  assumes "check_palette_and_num_colors pal = Inr n"
  shows "js_shl 1 (int (shift_count n)) = int (length pal)"
proof -
  from check_palette_pow2[OF assms] obtain k where k: "1 \<le> k" "k \<le> 8" "n = 2 ^ k" "n = length pal"
    by blast
  then have "js_shl 1 (int (shift_count n)) = 2 ^ k" by (simp add: js_shl_1)
  with k show ?thesis by (metis of_nat_numeral of_nat_power)
qed

lemma check_palette_error: "check_palette_and_num_colors pal = Inl e \<Longrightarrow> e = InvalidPaletteLength"
  by (auto simp: check_palette_and_num_colors_def Let_def split: if_splits)

lemma addFrame_error:
  "addFrame wr x y w h px fopts = (wr', Inl e) \<Longrightarrow>
     wr' = un_end wr"
  unfolding addFrame_def Let_def
  by (auto split: if_splits option.splits sum.splits)

lemma un_end_fields [simp]:
  "w_global_palette (un_end wr) = w_global_palette wr"
  "w_buf (un_end wr) = w_buf wr"
  by (simp_all add: un_end_def)

lemma js_and_low_bits:
  assumes "m \<le> 30"
  shows "js_and a (2 ^ m - 1) = a mod 2 ^ m"
proof -
  have "(2::int) ^ m \<le> 2 ^ 30" using assms by (intro power_increasing) simp_all
  then have "js_int32 (2 ^ m - 1) = 2 ^ m - 1"
    by (intro js_int32_nonneg) simp_all
  then have "js_and a (2 ^ m - 1) = take_bit m (js_int32 a)"
    by (simp add: js_and_def take_bit_eq_mask mask_eq_exp_minus_1)
  also have "\<dots> = take_bit m a"
    unfolding js_int32_def using assms by (intro take_bit_signed_take_bit) simp
  finally show ?thesis by (simp add: take_bit_eq_mod)
qed

lemma code_mask_eq:
  assumes "m \<le> 30"
  shows "js_and a (js_shl 1 (int m) - 1) = a mod 2 ^ m"
  using assms js_and_low_bits[of m a] by (simp add: js_shl_1)

lemma uint_reduced:
  assumes "m \<le> 8"
  shows "uint (word_of_int (uint (b::byte) mod 2 ^ m) :: byte) mod 2 ^ m = uint b mod 2 ^ m"
proof -
  have "(2::int) ^ m \<le> 2 ^ 8" using assms by (intro power_increasing) simp_all
  moreover have "uint b mod 2 ^ m < 2 ^ m" by simp
  moreover have "0 \<le> uint b mod 2 ^ m" by simp
  ultimately have "take_bit 8 (uint b mod 2 ^ m) = uint b mod 2 ^ m"
    by (intro take_bit_int_eq_self) linarith+
  then have "uint (word_of_int (uint b mod 2 ^ m) :: byte) = uint b mod 2 ^ m"
    by (simp add: uint_word_of_int_eq)
  then show ?thesis by simp
qed

lemma encode_index_reduced:
  assumes "m \<le> 8"
  shows "encode_index (int m) s (word_of_int (uint b mod 2 ^ m)) = encode_index (int m) s b"
  using assms uint_reduced[OF assms, of b]
  by (simp add: encode_index_def code_mask_eq)

lemma encoder_init_reduced:
  assumes "m \<le> 8"
  shows "encoder_init buf p (int m) (map (\<lambda>b. word_of_int (uint b mod 2 ^ m)) px)
           = encoder_init buf p (int m) px"
  using assms uint_reduced[OF assms, of "hd px"]
  by (cases px) (simp_all add: encoder_init_def to_int32_def code_mask_eq)

lemma foldl_encode_index_reduced:
  assumes "m \<le> 8"
  shows "foldl (encode_index (int m)) s (map (\<lambda>b. word_of_int (uint b mod 2 ^ m)) px)
           = foldl (encode_index (int m)) s px"
  using assms by (induction px arbitrary: s) (simp_all add: encode_index_reduced)

lemma LZW_reduced:
  assumes "m \<le> 8"
  shows "GifWriterOutputLZWCodeStream buf p (int m) (map (\<lambda>b. word_of_int (uint b mod 2 ^ m)) px)
           = GifWriterOutputLZWCodeStream buf p (int m) px"
  unfolding GifWriterOutputLZWCodeStream_def
  by (simp add: encoder_init_reduced[OF assms] drop_map foldl_encode_index_reduced[OF assms])

lemma puts_append: "puts bp (a @ b) = puts (puts bp a) b"
  by (simp add: puts_def)

lemma pk_above_cong:
  "pk_buf s' = pk_buf s \<Longrightarrow> pk_p s' = pk_p s \<Longrightarrow> pk_cur_subblock s' = pk_cur_subblock s
     \<Longrightarrow> pk_above buf k s' = pk_above buf k s"
  by (simp add: pk_above_def)

lemma emit_byte_above: "pk_above buf k s \<Longrightarrow> pk_above buf k (emit_byte s)"
  by (auto simp: pk_above_def emit_byte_def Let_def take_store)

lemma emit_bytes_above: "pk_above buf k s \<Longrightarrow> pk_above buf k (emit_bytes_to_buffer b s)"
proof (induction b s rule: emit_bytes_to_buffer.induct)
  case (1 b s)
  show ?case
  proof (cases "b \<le> pk_cur_shift s")
    case True
    from 1 True emit_byte_above have "pk_above buf k (emit_bytes_to_buffer b (emit_byte s))" by blast
    with True show ?thesis by (subst emit_bytes_to_buffer.simps) simp
  next
    case False
    with 1 show ?thesis by (subst emit_bytes_to_buffer.simps) simp
  qed
qed

lemma emit_code_above: "pk_above buf k s \<Longrightarrow> pk_above buf k (emit_code cs c s)"
  unfolding emit_code_def
  by (rule emit_bytes_above) (simp add: pk_above_def)

lemma encode_index_above: "pk_above buf k s \<Longrightarrow> pk_above buf k (encode_index m s x)"
proof -
  assume a: "pk_above buf k s"
  have e: "pk_above buf k (emit_code cs c s)" for cs c by (rule emit_code_above[OF a])
  have e2: "pk_above buf k (emit_code cs' c' (emit_code cs c s))" for cs c cs' c'
    by (rule emit_code_above[OF e])
  show ?thesis
    unfolding encode_index_def Let_def
    using a e e2 by (auto split: option.splits simp: pk_above_def)
qed

lemma foldl_encode_index_above:
  "pk_above buf k s \<Longrightarrow> pk_above buf k (foldl (encode_index m) s xs)"
  by (induction xs arbitrary: s) (simp_all add: encode_index_above)

lemma finish_above:
  assumes "pk_above buf k s"
  shows "take k (fst (finish_subblocks s)) = take k buf"
    and "length (fst (finish_subblocks s)) = length buf"
    and "int k < snd (finish_subblocks s)"
  using assms by (auto simp: pk_above_def finish_subblocks_def take_store)

lemma LZW_above:
  assumes "int k \<le> p"
  shows "take k (fst (GifWriterOutputLZWCodeStream buf p m idx)) = take k buf"
    and "length (fst (GifWriterOutputLZWCodeStream buf p m idx)) = length buf"
    and "int k < snd (GifWriterOutputLZWCodeStream buf p m idx)"
proof -
  have "pk_above buf k (encoder_init buf p m idx)"
    using assms by (simp add: pk_above_def encoder_init_def Let_def take_store)
  then have "pk_above buf k
     (emit_bytes_to_buffer 1
       (emit_code cs3 c3
         (emit_code cs2 c2
           (foldl (encode_index m) (emit_code cs1 c1 (encoder_init buf p m idx)) xs))))"
    for cs1 c1 cs2 c2 cs3 c3 xs
    by (intro emit_bytes_above emit_code_above foldl_encode_index_above)
  note a = finish_above[OF this]
  show "take k (fst (GifWriterOutputLZWCodeStream buf p m idx)) = take k buf"
    unfolding GifWriterOutputLZWCodeStream_def Let_def by (rule a)
  show "length (fst (GifWriterOutputLZWCodeStream buf p m idx)) = length buf"
    unfolding GifWriterOutputLZWCodeStream_def Let_def by (rule a)
  show "int k < snd (GifWriterOutputLZWCodeStream buf p m idx)"
    unfolding GifWriterOutputLZWCodeStream_def Let_def by (rule a)
qed

lemma put_first:
  assumes "0 \<le> p" "p < int (length b)"
  shows "fst (puts (b, p) (v # vs)) ! nat p = word_of_int v"
proof -
  have "take (Suc (nat p)) (fst (puts (store b p v, p + 1) vs)) = take (Suc (nat p)) (store b p v)"
    using assms take_puts[of "Suc (nat p)" "(store b p v, p + 1)" vs] by simp
  then have "take (Suc (nat p)) (fst (puts (b, p) (v # vs))) ! nat p
             = take (Suc (nat p)) (store b p v) ! nat p"
    by (simp add: puts_Cons)
  then show ?thesis using assms by (simp add: store_def)
qed

lemma frame_start_prefix:
  assumes "int k \<le> p"
  shows "take k (fst (frame_start (b, p) x y w h opts pal)) = take k b"
  unfolding frame_start_def using assms by (simp add: take_puts)

lemma frame_start_length:
  "length (fst (frame_start (b, p) x y w h opts pal)) = length b"
  unfolding frame_start_def by simp

lemma frame_start_cursor:
  "p + 10 \<le> snd (frame_start (b, p) x y w h opts pal)"
  unfolding frame_start_def by (simp add: descriptor_bytes_def)

lemma frame_start_first:
  assumes "0 \<le> p" "p < int (length b)"
  shows "fst (frame_start (b, p) x y w h opts pal) ! nat p
     = (if (case fo_disposal opts of None \<Rightarrow> 0 | Some d \<Rightarrow> d) \<noteq> 0 \<or> fo_transparent opts \<noteq> None
            \<or> (case fo_delay opts of None \<Rightarrow> 0 | Some d \<Rightarrow> d) \<noteq> 0
        then 0x21 else 0x2C)"
proof (cases "(case fo_disposal opts of None \<Rightarrow> 0 | Some d \<Rightarrow> d) \<noteq> 0 \<or> fo_transparent opts \<noteq> None
            \<or> (case fo_delay opts of None \<Rightarrow> 0 | Some d \<Rightarrow> d) \<noteq> 0")
  case True
  then obtain vs where g: "gce_bytes opts = 0x21 # vs" "length vs = 7"
    by (simp add: gce_bytes_def Let_def)
  have "take (Suc (nat p)) (fst (frame_start (b, p) x y w h opts pal))
      = take (Suc (nat p)) (fst (puts (b, p) (0x21 # vs)))"
    unfolding frame_start_def g using assms by (simp add: take_puts)
  then have "take (Suc (nat p)) (fst (frame_start (b, p) x y w h opts pal)) ! nat p
      = take (Suc (nat p)) (fst (puts (b, p) (0x21 # vs))) ! nat p"
    by simp
  then have "fst (frame_start (b, p) x y w h opts pal) ! nat p = fst (puts (b, p) (0x21 # vs)) ! nat p"
    by simp
  with put_first[OF assms, of "0x21" vs] True show ?thesis by simp
next
  case False
  then have g: "gce_bytes opts = []" by (simp add: gce_bytes_def Let_def)
  obtain vs where d: "descriptor_bytes x y w h opts pal = 0x2C # vs" "length vs = 9"
    by (simp add: descriptor_bytes_def)
  have "take (Suc (nat p)) (fst (frame_start (b, p) x y w h opts pal))
      = take (Suc (nat p)) (fst (puts (b, p) (0x2C # vs)))"
    unfolding frame_start_def g d using assms by (simp add: take_puts)
  then have "take (Suc (nat p)) (fst (frame_start (b, p) x y w h opts pal)) ! nat p
      = take (Suc (nat p)) (fst (puts (b, p) (0x2C # vs))) ! nat p"
    by simp
  then have "fst (frame_start (b, p) x y w h opts pal) ! nat p = fst (puts (b, p) (0x2C # vs)) ! nat p"
    by simp
  with put_first[OF assms, of "0x2C" vs] False show ?thesis by simp
qed

lemma addFrame_success:
  assumes "addFrame wr x y w h px fopts = (wr2, Inr n)"
  obtains pal where
    "wr2 = (un_end wr)\<lparr>w_buf := fst (GifWriterOutputLZWCodeStream
                                (fst (frame_start (w_buf wr, w_p (un_end wr)) x y w h fopts pal))
                                (snd (frame_start (w_buf wr, w_p (un_end wr)) x y w h fopts pal))
                                (if int (shift_count (length pal)) < 2 then 2 else int (shift_count (length pal)))
                                px),
                             w_p := n\<rparr>"
    "n = snd (GifWriterOutputLZWCodeStream
                                (fst (frame_start (w_buf wr, w_p (un_end wr)) x y w h fopts pal))
                                (snd (frame_start (w_buf wr, w_p (un_end wr)) x y w h fopts pal))
                                (if int (shift_count (length pal)) < 2 then 2 else int (shift_count (length pal)))
                                px)"
proof -
  obtain pal where pal: "(case fo_palette fopts of None \<Rightarrow> w_global_palette (un_end wr) | Some lp \<Rightarrow> Some lp) = Some pal"
    using assms unfolding addFrame_def Let_def
    by (auto split: if_splits option.splits)
  obtain nc where nc: "check_palette_and_num_colors pal = Inr nc"
    using assms pal unfolding addFrame_def Let_def
    by (cases "check_palette_and_num_colors pal") (auto split: if_splits)
  from check_palette_pow2[OF nc] have len: "nc = length pal" by blast
  have "wr2 = (un_end wr)\<lparr>w_buf := fst (GifWriterOutputLZWCodeStream
                                (fst (frame_start (w_buf wr, w_p (un_end wr)) x y w h fopts pal))
                                (snd (frame_start (w_buf wr, w_p (un_end wr)) x y w h fopts pal))
                                (if int (shift_count (length pal)) < 2 then 2 else int (shift_count (length pal)))
                                px),
                             w_p := n\<rparr>
      \<and> n = snd (GifWriterOutputLZWCodeStream
                                (fst (frame_start (w_buf wr, w_p (un_end wr)) x y w h fopts pal))
                                (snd (frame_start (w_buf wr, w_p (un_end wr)) x y w h fopts pal))
                                (if int (shift_count (length pal)) < 2 then 2 else int (shift_count (length pal)))
                                px)"
    using assms unfolding addFrame_def
    by (simp only: Let_def pal nc option.case sum.case)
       (auto split: if_splits
             simp: frame_start_def gce_bytes_def descriptor_bytes_def local_palette_bytes_def Let_def len)
  then show ?thesis using that by blast
qed

section \<open>Facts about the LZW encoder and decoder\<close>

lemma pow2_le_mono: "m \<le> n \<Longrightarrow> (2::int) ^ m \<le> 2 ^ n"
  by (rule power_increasing) simp_all

lemma js_shl_nat:
  assumes "0 \<le> c" "c * 2 ^ n < 2147483648" "n < 32"
  shows "js_shl c (int n) = c * 2 ^ n"
proof -
  have "0 \<le> c * 2 ^ n" using assms(1) by simp
  then have "js_int32 (c * 2 ^ n) = c * 2 ^ n"
    using assms(2) by (intro js_int32_nonneg)
  with assms(3) show ?thesis by (simp add: js_shl_def push_bit_eq_mult)
qed

lemma js_sar_nat:
  assumes "0 \<le> a" "a < 2147483648" "n < 32"
  shows "js_sar a (int n) = a div 2 ^ n"
  using assms by (simp add: js_sar_def js_int32_nonneg drop_bit_eq_div)

lemma js_and_255: "js_and a 0xFF = a mod 256"
  using js_and_low_bits[of 8 a] by simp

lemma or_disjoint_add:
  assumes "0 \<le> a" "a < 2 ^ n"
  shows "a OR (b * 2 ^ n) = a + b * (2::int) ^ n"
proof -
  have a: "take_bit n a = a" using assms by (simp add: take_bit_int_eq_self)
  have "take_bit n a AND push_bit n b = 0"
    by (simp add: bit_eq_iff bit_simps)
  then have "a AND (b * 2 ^ n) = 0" by (simp add: a push_bit_eq_mult)
  then have "a + b * 2 ^ n = a OR (b * 2 ^ n)" by (rule disjunctive_add_eq_or)
  then show ?thesis by simp
qed

lemma js_or_shl:
  assumes "0 \<le> a" "a < 2 ^ n" "0 \<le> c" "c * 2 ^ n < 2147483648" "n < 32"
  shows "js_or a (js_shl c (int n)) = a + c * 2 ^ n"
proof -
  have le: "(2::int) ^ n \<le> c * 2 ^ n \<or> c = 0"
    using assms(3) by (cases "c = 0") (simp_all add: mult_le_cancel_right1)
  have c0: "0 \<le> c * 2 ^ n" using assms(3) by simp
  have "a < 2147483648"
  proof (cases "c = 0")
    case False
    with le assms(2,4) show ?thesis by linarith
  next
    case True
    have "(2::int) ^ n \<le> 2 ^ 31" using assms(5) by (intro pow2_le_mono) simp
    with assms(2) show ?thesis by simp
  qed
  then have "js_int32 a = a" using assms(1) by (intro js_int32_nonneg)
  moreover have "js_int32 (c * 2 ^ n) = c * 2 ^ n" using c0 assms(4) by (intro js_int32_nonneg)
  ultimately show ?thesis
    using js_shl_nat[OF assms(3,4,5)] or_disjoint_add[OF assms(1,2), of c]
    by (simp add: js_or_def)
qed

lemma bytes_val_append: "bytes_val (ds @ [b]) = bytes_val ds + 256 ^ length ds * b"
  by (induction ds) (simp_all add: algebra_simps)

lemma bytes_val_nonneg: "(\<forall>b \<in> set ds. 0 \<le> b) \<Longrightarrow> 0 \<le> bytes_val ds"
  by (induction ds) simp_all

lemma divmod_255: obtains q r where "(n::nat) = 255 * q + r" "r < 255" "n div 255 = q" "n mod 255 = r"
proof -
  have "n = 255 * (n div 255) + n mod 255" by simp
  moreover have "n mod 255 < 255" by simp
  ultimately show ?thesis using that by blast
qed

lemma pos_mono: "i < j \<Longrightarrow> pos p0 i < pos p0 j"
  unfolding pos_def by (simp add: add_less_le_mono div_le_mono)

lemma div_Suc_255: "Suc n div 255 = (if n mod 255 = 254 then Suc (n div 255) else n div 255)"
  by (simp add: div_Suc mod_Suc)

lemma pos_Suc: "pos p0 (Suc n) = (if n mod 255 = 254 then pos p0 n + 2 else pos p0 n + 1)"
  unfolding pos_def by (simp add: div_Suc_255)

lemma pos_ne_len: "pos p0 i \<noteq> p0 + 1 + 256 * j"
proof -
  obtain a c where ac: "i = 255 * a + c" "c < 255" "i div 255 = a" "i mod 255 = c"
    by (rule divmod_255)
  show ?thesis
  proof (cases "j \<le> a")
    case True
    then show ?thesis unfolding pos_def ac(3) using ac(1,2) by linarith
  next
    case False
    then have "a + 1 \<le> j" by simp
    then show ?thesis unfolding pos_def ac(3) using ac(1,2) by linarith
  qed
qed

lemma len_lt_pos: "j \<le> n div 255 \<Longrightarrow> p0 + 1 + 256 * j < pos p0 n"
proof -
  assume j: "j \<le> n div 255"
  obtain a c where ac: "n = 255 * a + c" "c < 255" "n div 255 = a" "n mod 255 = c"
    by (rule divmod_255)
  show ?thesis unfolding pos_def ac(3) using ac(1,2) j[unfolded ac(3)] by linarith
qed

lemma block_full_iff: "(pos p0 n + 1 = p0 + 1 + 256 * (n div 255) + 256) = (n mod 255 = 254)"
proof -
  obtain a c where ac: "n = 255 * a + c" "c < 255" "n div 255 = a" "n mod 255 = c"
    by (rule divmod_255)
  show ?thesis unfolding pos_def ac(3) ac(4) using ac(1,2) by linarith
qed

lemma uint_byte_mod [simp]: "uint (word_of_int (a mod 256) :: byte) = a mod 256"
  by (simp add: uint_word_of_int_eq take_bit_eq_mod)

lemma div_lt_int: "0 < b \<Longrightarrow> a < c * b \<Longrightarrow> a div b < (c::int)"
proof -
  assume b: "0 < b" and a: "a < c * b"
  have "a div b * b + a mod b = a" by simp
  moreover have "0 \<le> a mod b" using b by simp
  ultimately have "a div b * b \<le> a" by linarith
  with a have "a div b * b < c * b" by linarith
  with b show ?thesis by (simp add: mult_less_cancel_right)
qed

lemma val_step: "(X::int) * (c mod 256) + 256 * X * (c div 256) = X * c"
proof -
  have "X * (c mod 256) + 256 * X * (c div 256) = X * (c mod 256 + 256 * (c div 256))"
    by (simp only: distrib_left mult.left_commute mult.assoc)
  also have "\<dots> = X * c" by simp
  finally show ?thesis .
qed

lemma emit_byte_full:
  assumes "pk_p s + 1 = pk_cur_subblock s + 256"
  shows "emit_byte s =
      s\<lparr>pk_buf := store (store (pk_buf s) (pk_p s) (js_and (pk_cur s) 0xFF)) (pk_cur_subblock s) 255,
        pk_p := pk_p s + 2,
        pk_cur := js_sar (pk_cur s) 8,
        pk_cur_shift := pk_cur_shift s - 8,
        pk_cur_subblock := pk_p s + 1\<rparr>"
  using assms by (simp add: emit_byte_def Let_def)

lemma emit_byte_part:
  assumes "pk_p s + 1 \<noteq> pk_cur_subblock s + 256"
  shows "emit_byte s =
      s\<lparr>pk_buf := store (pk_buf s) (pk_p s) (js_and (pk_cur s) 0xFF),
        pk_p := pk_p s + 1,
        pk_cur := js_sar (pk_cur s) 8,
        pk_cur_shift := pk_cur_shift s - 8\<rparr>"
  using assms by (simp add: emit_byte_def Let_def)

lemma emit_byte_fields:
  "pk_cur (emit_byte s) = js_sar (pk_cur s) 8"
  "pk_cur_shift (emit_byte s) = pk_cur_shift s - 8"
  "length (pk_buf (emit_byte s)) = length (pk_buf s)"
  by (simp_all add: emit_byte_def Let_def)

lemma LAY_I:
  assumes "length (pk_buf s) = length B"
    and "\<And>i. i \<le> p0 \<Longrightarrow> pk_buf s ! i = B ! i"
    and "pk_cur_subblock s = int (p0 + 1 + 256 * (length ds div 255))"
    and "pk_p s = int (pos p0 (length ds))"
    and "pos p0 (length ds) \<le> length B"
    and "\<And>i. i < length ds \<Longrightarrow> uint (pk_buf s ! pos p0 i) = ds ! i"
    and "\<And>j. j < length ds div 255 \<Longrightarrow> uint (pk_buf s ! (p0 + 1 + 256 * j)) = 255"
    and "\<And>b. b \<in> set ds \<Longrightarrow> 0 \<le> b \<and> b < 256"
  shows "LAY B p0 ds s"
  unfolding LAY_def using assms by blast

lemma emit_byte_LAY:
  assumes LAY: "LAY B p0 ds s"
    and cap: "pk_p (emit_byte s) \<le> int (length B)"
  shows "LAY B p0 (ds @ [pk_cur s mod 256]) (emit_byte s)"
proof -
  let ?n = "length ds"
  let ?b = "pk_cur s mod 256"
  define sbn where "sbn = p0 + 1 + 256 * (?n div 255)"
  define pn where "pn = pos p0 ?n"
  from LAY have len: "length (pk_buf s) = length B"
    and pre: "\<forall>i \<le> p0. pk_buf s ! i = B ! i"
    and sb: "pk_cur_subblock s = int sbn"
    and p: "pk_p s = int pn"
    and dat: "\<forall>i < ?n. uint (pk_buf s ! pos p0 i) = ds ! i"
    and lens: "\<forall>j < ?n div 255. uint (pk_buf s ! (p0 + 1 + 256 * j)) = 255"
    and rng: "\<forall>b \<in> set ds. 0 \<le> b \<and> b < 256"
    unfolding LAY_def sbn_def pn_def by blast+
  have full: "(pn + 1 = sbn + 256) = (?n mod 255 = 254)"
    unfolding pn_def sbn_def by (rule block_full_iff)
  have fullc: "(pk_p s + 1 = pk_cur_subblock s + 256) = (?n mod 255 = 254)"
    using full unfolding p sb by linarith
  have e1: "emit_byte s =
      s\<lparr>pk_buf := (pk_buf s)[pn := word_of_int (js_and (pk_cur s) 0xFF), sbn := 255],
        pk_p := int pn + 2,
        pk_cur := js_sar (pk_cur s) 8,
        pk_cur_shift := pk_cur_shift s - 8,
        pk_cur_subblock := int pn + 1\<rparr>" if "?n mod 255 = 254"
  proof -
    from that fullc have c: "pk_p s + 1 = pk_cur_subblock s + 256" by simp
    show ?thesis unfolding emit_byte_full[OF c] p sb store_int by simp
  qed
  have e2: "emit_byte s =
      s\<lparr>pk_buf := (pk_buf s)[pn := word_of_int (js_and (pk_cur s) 0xFF)],
        pk_p := int pn + 1,
        pk_cur := js_sar (pk_cur s) 8,
        pk_cur_shift := pk_cur_shift s - 8\<rparr>" if "?n mod 255 \<noteq> 254"
  proof -
    from that fullc have c: "pk_p s + 1 \<noteq> pk_cur_subblock s + 256" by simp
    show ?thesis unfolding emit_byte_part[OF c] p sb store_int by simp
  qed
  have pf: "pk_p (emit_byte s) = int (pos p0 (Suc ?n))"
  proof (cases "?n mod 255 = 254")
    case True
    then show ?thesis by (simp add: e1 pos_Suc pn_def)
  next
    case False
    then show ?thesis by (simp add: e2 pos_Suc pn_def)
  qed
  have capn: "pos p0 (Suc ?n) \<le> length B"
    using cap pf by simp
  have pnl: "pn < length B" using capn pos_mono[of ?n "Suc ?n" p0] by (simp add: pn_def)
  have sbn: "sbn < pn" unfolding sbn_def pn_def by (rule len_lt_pos) simp
  have sbf: "pk_cur_subblock (emit_byte s) = int (p0 + 1 + 256 * (Suc ?n div 255))"
  proof (cases "?n mod 255 = 254")
    case True
    with full have "pn + 1 = sbn + 256" by simp
    then have "pn + 1 = p0 + 1 + 256 * Suc (?n div 255)" by (simp add: sbn_def)
    with True show ?thesis by (simp add: e1 div_Suc_255)
  next
    case False
    with sb show ?thesis by (simp add: e2 div_Suc_255 sbn_def)
  qed
  have b8: "uint (word_of_int (js_and (pk_cur s) 0xFF) :: byte) = ?b"
    by (simp add: js_and_255)
  have buf_other: "pk_buf (emit_byte s) ! i = pk_buf s ! i" if "i \<noteq> pn" "i \<noteq> sbn" for i
    using that by (cases "?n mod 255 = 254") (simp_all add: e1 e2)
  have buf_pn: "uint (pk_buf (emit_byte s) ! pn) = ?b"
    using sbn pnl len b8 by (cases "?n mod 255 = 254") (simp_all add: e1 e2)
  have buf_sbn: "uint (pk_buf (emit_byte s) ! sbn) = 255" if "?n mod 255 = 254"
    using that sbn pnl len by (simp add: e1)
  show "LAY B p0 (ds @ [?b]) (emit_byte s)"
  proof (rule LAY_I)
    show "length (pk_buf (emit_byte s)) = length B" using len by (simp add: emit_byte_fields)
    show "pk_buf (emit_byte s) ! i = B ! i" if "i \<le> p0" for i
    proof -
      from that have "i \<noteq> pn" "i \<noteq> sbn" by (simp_all add: pn_def sbn_def pos_def)
      with buf_other pre that show ?thesis by simp
    qed
    show "pk_cur_subblock (emit_byte s) = int (p0 + 1 + 256 * (length (ds @ [?b]) div 255))"
      using sbf by simp
    show "pk_p (emit_byte s) = int (pos p0 (length (ds @ [?b])))"
      using pf by simp
    show "pos p0 (length (ds @ [?b])) \<le> length B" using capn by simp
    show "uint (pk_buf (emit_byte s) ! pos p0 i) = (ds @ [?b]) ! i" if "i < length (ds @ [?b])" for i
    proof (cases "i = ?n")
      case True
      then show ?thesis using buf_pn by (simp add: pn_def)
    next
      case False
      with that have il: "i < ?n" by simp
      then have "pos p0 i \<noteq> pn" using pos_mono[of i ?n p0] by (simp add: pn_def)
      moreover have "pos p0 i \<noteq> sbn" unfolding sbn_def by (rule pos_ne_len)
      ultimately show ?thesis using buf_other il dat by (simp add: nth_append)
    qed
    show "uint (pk_buf (emit_byte s) ! (p0 + 1 + 256 * j)) = 255"
      if "j < length (ds @ [?b]) div 255" for j
    proof (cases "j = ?n div 255")
      case True
      with that have "?n mod 255 = 254" by (simp add: div_Suc_255 split: if_splits)
      from buf_sbn[OF this] True show ?thesis by (simp add: sbn_def)
    next
      case False
      with that have jl: "j < ?n div 255" by (simp add: div_Suc_255 split: if_splits)
      have "p0 + 1 + 256 * j \<noteq> pn" using pos_ne_len[of p0 ?n j] by (simp add: pn_def)
      moreover have "p0 + 1 + 256 * j \<noteq> sbn" using False by (simp add: sbn_def)
      ultimately show ?thesis using buf_other jl lens by simp
    qed
    show "0 \<le> b \<and> b < 256" if "b \<in> set (ds @ [?b])" for b
      using that rng by auto
  qed
qed

lemma emit_byte_ACC:
  assumes acc: "ACC sh s"
    and sh8: "8 \<le> sh"
  shows "ACC (sh - 8) (emit_byte s)"
    and "pk_val (ds @ [pk_cur s mod 256]) (emit_byte s) = pk_val ds s"
proof -
  let ?n = "length ds"
  let ?b = "pk_cur s mod 256"
  from acc have sh: "pk_cur_shift s = int sh" "sh < 20" "0 \<le> pk_cur s" "pk_cur s < 2 ^ sh"
    unfolding ACC_def by blast+
  have "(2::int) ^ sh \<le> 2 ^ 20" using sh(2) by (intro pow2_le_mono) simp
  then have c31: "pk_cur s < 2147483648" using sh(4) by simp
  have sar: "js_sar (pk_cur s) 8 = pk_cur s div 256"
    using js_sar_nat[OF sh(3) c31, of 8] by simp
  obtain t where t: "sh = t + 8" using sh8 le_Suc_ex[of 8 sh] by (auto simp: add.commute)
  have curdiv: "pk_cur s div 256 < 2 ^ t"
  proof -
    have "(2::int) ^ sh = 2 ^ t * 2 ^ 8" unfolding t by (rule power_add)
    with sh(4) have "pk_cur s < 2 ^ t * 256" by simp
    then show ?thesis by (intro div_lt_int) simp_all
  qed
  have curdiv0: "0 \<le> pk_cur s div 256" using sh(3) by (simp add: pos_imp_zdiv_nonneg_iff)
  have shf: "pk_cur_shift (emit_byte s) = pk_cur_shift s - 8"
    by (rule emit_byte_fields)
  have curf: "pk_cur (emit_byte s) = pk_cur s div 256"
    by (simp add: emit_byte_fields sar)
  show "pk_val (ds @ [?b]) (emit_byte s) = pk_val ds s"
    by (simp add: curf pk_val_def bytes_val_append val_step)
  show "ACC (sh - 8) (emit_byte s)"
    unfolding ACC_def using shf sh(1,2) t curf curdiv curdiv0 by simp
qed

lemma emit_bytes_step:
  "b \<le> pk_cur_shift s \<Longrightarrow> emit_bytes_to_buffer b s = emit_bytes_to_buffer b (emit_byte s)"
  by (subst emit_bytes_to_buffer.simps) simp

lemma emit_bytes_stop:
  "pk_cur_shift s < b \<Longrightarrow> emit_bytes_to_buffer b s = s"
  by (subst emit_bytes_to_buffer.simps) simp

lemma emit_bytes_pres:
  assumes "\<And>s. f (emit_byte s) = f s"
  shows "f (emit_bytes_to_buffer b s) = f s"
proof (induction b s rule: emit_bytes_to_buffer.induct)
  case (1 b s)
  show ?case
  proof (cases "b \<le> pk_cur_shift s")
    case True
    with 1 have "f (emit_bytes_to_buffer b (emit_byte s)) = f (emit_byte s)" by simp
    with assms show ?thesis by (simp add: emit_bytes_step[OF True])
  next
    case False
    then show ?thesis by (simp add: emit_bytes_stop)
  qed
qed

lemma pk_p_emit_byte: "pk_p s \<le> pk_p (emit_byte s)"
  by (simp add: emit_byte_def Let_def)

lemma pk_p_emit_bytes: "pk_p s \<le> pk_p (emit_bytes_to_buffer b s)"
proof (induction b s rule: emit_bytes_to_buffer.induct)
  case (1 b s)
  show ?case
  proof (cases "b \<le> pk_cur_shift s")
    case True
    with 1 have "pk_p (emit_byte s) \<le> pk_p (emit_bytes_to_buffer b (emit_byte s))" by simp
    with pk_p_emit_byte[of s] show ?thesis by (simp add: emit_bytes_step[OF True])
  next
    case False
    then show ?thesis by (simp add: emit_bytes_stop)
  qed
qed

lemma pk_p_emit_code: "pk_p s \<le> pk_p (emit_code w c s)"
  unfolding emit_code_def
  using pk_p_emit_bytes[of "s\<lparr>pk_cur := js_or (pk_cur s) (js_shl c (pk_cur_shift s)),
         pk_cur_shift := pk_cur_shift s + w\<rparr>" 8]
  by simp

lemma LAY_cong:
  assumes "LAY B p0 ds s" "pk_buf s' = pk_buf s" "pk_p s' = pk_p s"
    "pk_cur_subblock s' = pk_cur_subblock s"
  shows "LAY B p0 ds s'"
  using assms unfolding LAY_def by simp

lemma emit_bytes8:
  assumes "LAY B p0 ds s" "ACC sh s"
    and "pk_p (emit_bytes_to_buffer 8 s) \<le> int (length B)"
  shows "\<exists>ds' sh'. LAY B p0 ds' (emit_bytes_to_buffer 8 s) \<and> ACC sh' (emit_bytes_to_buffer 8 s)
            \<and> sh' < 8 \<and> pk_val ds' (emit_bytes_to_buffer 8 s) = pk_val ds s
            \<and> 8 * length ds' + sh' = 8 * length ds + sh"
  using assms
proof (induction sh arbitrary: s ds rule: less_induct)
  case (less sh)
  from less.prems(2) have shf: "pk_cur_shift s = int sh" by (simp add: ACC_def)
  show ?case
  proof (cases "8 \<le> sh")
    case False
    with shf have "emit_bytes_to_buffer 8 s = s" by (intro emit_bytes_stop) simp
    with less.prems False show ?thesis by auto
  next
    case True
    with shf have st: "emit_bytes_to_buffer 8 s = emit_bytes_to_buffer 8 (emit_byte s)"
      by (intro emit_bytes_step) simp
    let ?b = "pk_cur s mod 256"
    have cap: "pk_p (emit_byte s) \<le> int (length B)"
      using pk_p_emit_bytes[of "emit_byte s" 8] less.prems(3) st by simp
    have l: "LAY B p0 (ds @ [?b]) (emit_byte s)"
      using less.prems(1) cap by (rule emit_byte_LAY)
    note a1 = emit_byte_ACC(1)[OF less.prems(2) True]
    note a2 = emit_byte_ACC(2)[OF less.prems(2) True, where ds = ds]
    have "sh - 8 < sh" using True by simp
    from less.IH[OF this l a1] less.prems(3) st
    obtain ds' sh' where r: "LAY B p0 ds' (emit_bytes_to_buffer 8 s)"
      "ACC sh' (emit_bytes_to_buffer 8 s)" "sh' < 8"
      "pk_val ds' (emit_bytes_to_buffer 8 s) = pk_val (ds @ [?b]) (emit_byte s)"
      "8 * length ds' + sh' = 8 * length (ds @ [?b]) + (sh - 8)"
      by auto
    from r(5) True have "8 * length ds' + sh' = 8 * length ds + sh" by simp
    with r a2 show ?thesis by auto
  qed
qed

lemma emit_code_PKS:
  assumes P: "PKS B p0 s V n"
    and c: "0 \<le> c" "c < 2 ^ w" and w: "w \<le> 12"
    and cap: "pk_p (emit_code (int w) c s) \<le> int (length B)"
  shows "PKS B p0 (emit_code (int w) c s) (V + 2 ^ n * c) (n + w)"
proof -
  from P obtain ds sh where d: "LAY B p0 ds s" "ACC sh s" "sh < 8" "pk_val ds s = V"
    "8 * length ds + sh = n"
    unfolding PKS_def by blast
  from d(2) have a: "pk_cur_shift s = int sh" "0 \<le> pk_cur s" "pk_cur s < 2 ^ sh"
    by (simp_all add: ACC_def)
  define s1 where "s1 = s\<lparr>pk_cur := js_or (pk_cur s) (js_shl c (pk_cur_shift s)),
         pk_cur_shift := pk_cur_shift s + int w\<rparr>"
  have ec: "emit_code (int w) c s = emit_bytes_to_buffer 8 s1"
    by (simp add: emit_code_def s1_def)
  have l1: "LAY B p0 ds s1" using d(1) by (rule LAY_cong) (simp_all add: s1_def)
  have "(2::int) ^ w \<le> 2 ^ 12" using w by (rule pow2_le_mono)
  with c have c12: "c < 4096" by simp
  have "(2::int) ^ sh \<le> 2 ^ 7" using d(3) by (intro pow2_le_mono) simp
  then have s7: "(2::int) ^ sh \<le> 128" by simp
  have "c * 2 ^ sh \<le> 4095 * 128"
    using c12 s7 c(1) by (intro mult_mono) simp_all
  then have b31: "c * 2 ^ sh < 2147483648" by simp
  have cur1: "pk_cur s1 = pk_cur s + c * 2 ^ sh"
    using js_or_shl[OF a(2,3) c(1) b31] d(3) by (simp add: s1_def a(1))
  have "c + 1 \<le> 2 ^ w" using c(2) by simp
  then have "(c + 1) * 2 ^ sh \<le> 2 ^ w * 2 ^ sh" by (intro mult_right_mono) simp_all
  then have "c * 2 ^ sh + 2 ^ sh \<le> 2 ^ (sh + w)" by (simp add: algebra_simps power_add)
  with a(3) have up: "pk_cur s1 < 2 ^ (sh + w)" unfolding cur1 by linarith
  have a1: "ACC (sh + w) s1"
    unfolding ACC_def using up cur1 a(2) c(1) d(3) w by (simp add: s1_def a(1))
  have v1: "pk_val ds s1 = V + 2 ^ n * c"
  proof -
    have "(256::int) ^ length ds = 2 ^ (8 * length ds)" by (simp add: power_mult)
    then have "(2::int) ^ n = 256 ^ length ds * 2 ^ sh"
      unfolding d(5)[symmetric] by (simp add: power_add)
    then show ?thesis
      using d(4) by (simp add: pk_val_def cur1 algebra_simps)
  qed
  from emit_bytes8[OF l1 a1] cap ec
  obtain ds' sh' where r: "LAY B p0 ds' (emit_bytes_to_buffer 8 s1)"
      "ACC sh' (emit_bytes_to_buffer 8 s1)" "sh' < 8"
      "pk_val ds' (emit_bytes_to_buffer 8 s1) = pk_val ds s1"
      "8 * length ds' + sh' = 8 * length ds + (sh + w)"
    by auto
  show ?thesis
    unfolding PKS_def ec using r v1 d(5) by (intro exI[of _ ds'] exI[of _ sh']) simp
qed

lemma flush_LAY:
  assumes P: "PKS B p0 s V n"
    and cap: "pk_p (emit_bytes_to_buffer 1 s) \<le> int (length B)"
  shows "\<exists>ds. LAY B p0 ds (emit_bytes_to_buffer 1 s) \<and> bytes_val ds = V \<and> n \<le> 8 * length ds"
proof -
  from P obtain ds sh where d: "LAY B p0 ds s" "ACC sh s" "sh < 8" "pk_val ds s = V"
    "8 * length ds + sh = n"
    unfolding PKS_def by blast
  from d(2) have a: "pk_cur_shift s = int sh" "0 \<le> pk_cur s" "pk_cur s < 2 ^ sh"
    by (simp_all add: ACC_def)
  show ?thesis
  proof (cases "sh = 0")
    case True
    with a have "pk_cur s = 0" by simp
    with d(4) have v: "bytes_val ds = V" by (simp add: pk_val_def)
    from True a(1) have "emit_bytes_to_buffer 1 s = s" by (intro emit_bytes_stop) simp
    with d(1,5) v True show ?thesis by auto
  next
    case False
    with a(1) have e1: "emit_bytes_to_buffer 1 s = emit_bytes_to_buffer 1 (emit_byte s)"
      by (intro emit_bytes_step) simp
    have "pk_cur_shift (emit_byte s) < 1" using a(1) d(3) by (simp add: emit_byte_fields)
    then have e2: "emit_bytes_to_buffer 1 (emit_byte s) = emit_byte s" by (rule emit_bytes_stop)
    have l: "LAY B p0 (ds @ [pk_cur s mod 256]) (emit_byte s)"
      using d(1) cap unfolding e1 e2 by (rule emit_byte_LAY)
    have "(2::int) ^ sh \<le> 2 ^ 7" using d(3) by (intro pow2_le_mono) simp
    with a(3) have "pk_cur s < 256" by simp
    with a(2) have m: "pk_cur s mod 256 = pk_cur s" by simp
    have v: "bytes_val (ds @ [pk_cur s mod 256]) = V"
      using d(4) by (simp add: bytes_val_append m pk_val_def)
    have "n \<le> 8 * length (ds @ [pk_cur s mod 256])" using d(3,5) by simp
    with l v show ?thesis unfolding e1 e2 by blast
  qed
qed

lemma term_pos_cases:
  "term_pos p0 N = (if N mod 255 = 0 then p0 + 1 + 256 * (N div 255) else pos p0 N)"
proof -
  obtain q r where qr: "N = 255 * q + r" "r < 255" "N div 255 = q" "N mod 255 = r"
    by (rule divmod_255)
  have "(N + 254) div 255 = (if r = 0 then q else q + 1)"
  proof (cases "r = 0")
    case True
    then have "N + 254 = 255 * q + 254" using qr(1) by simp
    then have "(N + 254) div 255 = (254 + q * 255) div 255" by (simp add: add.commute mult.commute)
    then show ?thesis using True by simp
  next
    case False
    then obtain r' where r': "r = Suc r'" by (cases r) auto
    then have "N + 254 = r' + (q + 1) * 255" using qr(1) by simp
    moreover have "r' < 255" using r' qr(2) by simp
    ultimately have "(N + 254) div 255 = q + 1" by simp
    with False show ?thesis by simp
  qed
  then show ?thesis
    unfolding term_pos_def pos_def qr(3) qr(4) using qr(1) by (simp split: if_splits)
qed

lemma finish_Framed:
  assumes L: "LAY B p0 ds s"
    and cap: "snd (finish_subblocks s) \<le> int (length B)"
  shows "Framed (fst (finish_subblocks s)) p0 ds"
    and "length (fst (finish_subblocks s)) = length B"
    and "\<forall>i \<le> p0. fst (finish_subblocks s) ! i = B ! i"
    and "snd (finish_subblocks s) = int (term_pos p0 (length ds)) + 1"
proof -
  let ?N = "length ds"
  define sbn where "sbn = p0 + 1 + 256 * (?N div 255)"
  define pn where "pn = pos p0 ?N"
  from L have len: "length (pk_buf s) = length B"
    and pre: "\<forall>i \<le> p0. pk_buf s ! i = B ! i"
    and sb: "pk_cur_subblock s = int sbn"
    and p: "pk_p s = int pn"
    and dat: "\<forall>i < ?N. uint (pk_buf s ! pos p0 i) = ds ! i"
    and lens: "\<forall>j < ?N div 255. uint (pk_buf s ! (p0 + 1 + 256 * j)) = 255"
    and rng: "\<forall>b \<in> set ds. 0 \<le> b \<and> b < 256"
    unfolding LAY_def sbn_def pn_def by blast+
  obtain q r where qr: "?N = 255 * q + r" "r < 255" "?N div 255 = q" "?N mod 255 = r"
    by (rule divmod_255)
  have sbn_lt: "sbn < pn" unfolding sbn_def pn_def by (rule len_lt_pos) simp
  have pn_eq: "pn = sbn + 1 + r" unfolding pn_def sbn_def pos_def qr(3) using qr(1) by simp
  have empty_iff: "(pk_cur_subblock s + 1 = pk_p s) = (r = 0)"
    unfolding sb p using pn_eq by linarith
  have st: "store b (int sbn) 0 = b[sbn := 0]" "store b (int pn) 0 = b[pn := 0]" for b
    by (simp_all only: store_int) simp_all
  have T: "term_pos p0 ?N = (if r = 0 then sbn else pn)"
    unfolding term_pos_cases qr(4) sbn_def pn_def by simp
  have fin: "finish_subblocks s =
      (if r = 0 then ((pk_buf s)[sbn := 0], int pn)
       else ((pk_buf s)[sbn := word_of_int (int r), pn := 0], int pn + 1))"
  proof (cases "r = 0")
    case True
    with empty_iff have "pk_cur_subblock s + 1 = pk_p s" by simp
    then have "finish_subblocks s = (store (pk_buf s) (pk_cur_subblock s) 0, pk_p s)"
      by (simp add: finish_subblocks_def)
    with True show ?thesis by (simp only: sb p st) simp
  next
    case False
    with empty_iff have "pk_cur_subblock s + 1 \<noteq> pk_p s" by simp
    then have "finish_subblocks s =
      (store (store (pk_buf s) (pk_cur_subblock s) (pk_p s - pk_cur_subblock s - 1)) (pk_p s) 0,
           pk_p s + 1)"
      by (simp add: finish_subblocks_def)
    moreover have "int pn - int sbn - 1 = int r" using pn_eq by simp
    ultimately show ?thesis using False by (simp only: sb p st store_int) simp
  qed
  show sn: "snd (finish_subblocks s) = int (term_pos p0 ?N) + 1"
    unfolding fin T using pn_eq by simp
  show lenf: "length (fst (finish_subblocks s)) = length B"
    unfolding fin using len by simp
  have Tl: "term_pos p0 ?N < length B" using cap sn by simp
  have other: "fst (finish_subblocks s) ! i = pk_buf s ! i" if "i \<noteq> sbn" "i \<noteq> pn" for i
    unfolding fin using that by simp
  have lt_sbn: "p0 < sbn" by (simp add: sbn_def)
  show "\<forall>i \<le> p0. fst (finish_subblocks s) ! i = B ! i"
  proof (intro allI impI)
    fix i assume "i \<le> p0"
    with lt_sbn sbn_lt have "i \<noteq> sbn" "i \<noteq> pn" by simp_all
    with other pre \<open>i \<le> p0\<close> show "fst (finish_subblocks s) ! i = B ! i" by simp
  qed
  have r8: "uint (word_of_int (int r) :: byte) = int r"
    unfolding uint_word_of_int_eq using qr(2) by (simp add: take_bit_eq_mod)
  show "Framed (fst (finish_subblocks s)) p0 ds"
    unfolding Framed_def
  proof (intro conjI allI impI ballI)
    show "term_pos p0 ?N < length (fst (finish_subblocks s))" using Tl lenf by simp
    show "uint (fst (finish_subblocks s) ! pos p0 i) = ds ! i" if "i < ?N" for i
    proof -
      have "pos p0 i \<noteq> sbn" unfolding sbn_def by (rule pos_ne_len)
      moreover have "pos p0 i \<noteq> pn" using pos_mono[OF that, of p0] by (simp add: pn_def)
      ultimately show ?thesis using other dat that by simp
    qed
    show "uint (fst (finish_subblocks s) ! (p0 + 1 + 256 * j)) = min 255 (int ?N - 255 * int j)"
      if "255 * j < ?N" for j
    proof (cases "j = q")
      case True
      with that qr(1) have r0: "r \<noteq> 0" by simp
      have "sbn < length B" using sbn_lt Tl T r0 by simp
      then have "fst (finish_subblocks s) ! sbn = word_of_int (int r)"
        unfolding fin using r0 sbn_lt len by simp
      moreover have "min 255 (int ?N - 255 * int j) = int r" using True qr(1,2) by simp
      ultimately show ?thesis using True r8 by (simp add: sbn_def qr(3))
    next
      case False
      with that qr(1,2) have jq: "j < q" by (cases "j < q") auto
      then have "255 * (j + 1) \<le> 255 * q" by simp
      then have m: "min 255 (int ?N - 255 * int j) = 255" using qr(1) by simp
      have "p0 + 1 + 256 * j \<noteq> sbn" using False by (simp add: sbn_def qr(3))
      moreover have "p0 + 1 + 256 * j \<noteq> pn" using pos_ne_len[of p0 ?N j] by (simp add: pn_def)
      ultimately show ?thesis using other lens jq m by (simp add: qr(3))
    qed
    show "uint (fst (finish_subblocks s) ! term_pos p0 ?N) = 0"
    proof (cases "r = 0")
      case True
      then show ?thesis unfolding fin T using Tl T len by simp
    next
      case False
      then show ?thesis unfolding fin T using Tl T len by simp
    qed
    show "0 \<le> b" if "b \<in> set ds" for b using that rng by simp
    show "b < 256" if "b \<in> set ds" for b using that rng by simp
  qed
qed

lemma read_bytes_step:
  "d_cur_shift s < 16 \<Longrightarrow> d_subblock_size s \<noteq> Some 0 \<Longrightarrow>
     read_bytes buf s = read_bytes buf (rd_step buf s)"
  by (subst read_bytes.simps) (simp add: rd_step_def)

lemma read_bytes_stop:
  assumes "\<not> (d_cur_shift s < 16 \<and> d_subblock_size s \<noteq> Some 0)"
  shows "read_bytes buf s = s"
  by (subst read_bytes.simps) (simp only: assms if_False)

lemma rd_step_shift: "d_cur_shift (rd_step buf s) = d_cur_shift s + 8"
  by (simp add: rd_step_def Let_def)

lemma read_bytes_induct [consumes 0, case_names step stop]:
  assumes "\<And>s. d_cur_shift s < 16 \<Longrightarrow> d_subblock_size s \<noteq> Some 0 \<Longrightarrow> P (rd_step buf s) \<Longrightarrow> P s"
    and "\<And>s. \<not> (d_cur_shift s < 16 \<and> d_subblock_size s \<noteq> Some 0) \<Longrightarrow> P s"
  shows "P s"
proof (induction "nat (16 - d_cur_shift s)" arbitrary: s rule: less_induct)
  case less
  show ?case
  proof (cases "d_cur_shift s < 16 \<and> d_subblock_size s \<noteq> Some 0")
    case True
    then have "nat (16 - d_cur_shift (rd_step buf s)) < nat (16 - d_cur_shift s)"
      by (simp add: rd_step_shift)
    from less[OF this] True assms(1) show ?thesis by blast
  next
    case False
    then show ?thesis by (rule assms(2))
  qed
qed

lemma read_bytes_pres:
  assumes "\<And>s a. f (s\<lparr>d_p := a\<rparr>) = f s" "\<And>s a. f (s\<lparr>d_subblock_size := a\<rparr>) = f s"
    "\<And>s a. f (s\<lparr>d_cur := a\<rparr>) = f s" "\<And>s a. f (s\<lparr>d_cur_shift := a\<rparr>) = f s"
  shows "f (read_bytes buf s) = f s"
proof (induction s rule: read_bytes_induct[where buf = buf])
  case (step s)
  have "f (rd_step buf s) = f s" by (simp add: rd_step_def Let_def assms)
  with step show ?case by (simp add: read_bytes_step)
next
  case (stop s)
  then show ?case by (simp add: read_bytes_stop)
qed

lemma read_bytes_fields:
  "d_cur_code_size (read_bytes buf s) = d_cur_code_size s"
  "d_code_mask (read_bytes buf s) = d_code_mask s"
  "d_next_code (read_bytes buf s) = d_next_code s"
  "d_prev_code (read_bytes buf s) = d_prev_code s"
  "d_op (read_bytes buf s) = d_op s"
  "d_output (read_bytes buf s) = d_output s"
  "d_code_table (read_bytes buf s) = d_code_table s"
  by (rule read_bytes_pres; simp)+

lemma pos_lt_term: "i < N \<Longrightarrow> pos p0 i < term_pos p0 N"
proof -
  assume iN: "i < N"
  obtain q r where qr: "N = 255 * q + r" "r < 255" "N div 255 = q" "N mod 255 = r"
    by (rule divmod_255)
  obtain a c where ac: "i = 255 * a + c" "c < 255" "i div 255 = a" "i mod 255 = c"
    by (rule divmod_255)
  show ?thesis
  proof (cases "r = 0")
    case True
    with iN qr(1) ac(1) have "255 * a < 255 * q" by simp
    then have "a + 1 \<le> q" by simp
    then show ?thesis
      unfolding term_pos_cases qr(3,4) pos_def ac(3) using True ac(1,2) by simp
  next
    case False
    then show ?thesis unfolding term_pos_cases qr(4) using pos_mono[OF iN] by simp
  qed
qed

lemma term_pos_Suc: "term_pos p0 (Suc n) = pos p0 n + 1"
proof -
  obtain a c where ac: "n = 255 * a + c" "c < 255" "n div 255 = a" "n mod 255 = c"
    by (rule divmod_255)
  show ?thesis
  proof (cases "c = 254")
    case True
    then have "Suc n mod 255 = 0" "Suc n div 255 = Suc a"
      using ac by (simp_all add: mod_Suc div_Suc_255)
    then show ?thesis unfolding term_pos_cases pos_def ac(3) using ac(1) True by simp
  next
    case False
    then have "Suc n mod 255 \<noteq> 0" using ac by (simp add: mod_Suc)
    then show ?thesis unfolding term_pos_cases using False ac(4) by (simp add: pos_Suc)
  qed
qed

lemma rd_step_SRC:
  assumes F: "Framed buf p0 ds"
    and S: "SRCn p0 ds d n sh"
    and n: "n < length ds" and sh: "sh < 16"
  shows "SRCn p0 ds (rd_step buf d) (Suc n) (sh + 8)"
    and "d_cur (rd_step buf d) + 2 ^ (sh + 8) * bytes_val (drop (Suc n) ds)
          = d_cur d + 2 ^ sh * bytes_val (drop n ds)"
proof -
  let ?N = "length ds"
  obtain a c where ac: "n = 255 * a + c" "c < 255" "n div 255 = a" "n mod 255 = c"
    by (rule divmod_255)
  from S n have s: "d_cur_shift d = int sh" "0 \<le> d_cur d" "d_cur d < 2 ^ sh"
    "d_p d = int (pos p0 n)"
    "d_subblock_size d = Some (min 255 (int ?N - 255 * int a) - int c)"
    unfolding SRCn_def ac(3,4) by simp_all
  from F have Tl: "term_pos p0 ?N < length buf"
    and dat: "\<forall>i < ?N. uint (buf ! pos p0 i) = ds ! i"
    and lens: "\<forall>j. 255 * j < ?N \<longrightarrow>
          uint (buf ! (p0 + 1 + 256 * j)) = min 255 (int ?N - 255 * int j)"
    and T0: "uint (buf ! term_pos p0 ?N) = 0"
    and rng: "\<forall>b \<in> set ds. 0 \<le> b \<and> b < 256"
    unfolding Framed_def by blast+
  have pl: "pos p0 n < length buf" using pos_lt_term[OF n, of p0] Tl by simp
  have ld: "load buf (int (pos p0 n)) = Some (ds ! n)"
    using pl dat n by (simp add: load_def)
  have b: "0 \<le> ds ! n" "ds ! n < 256" using rng n by simp_all
  have "(2::int) ^ sh \<le> 2 ^ 15" using sh by (intro pow2_le_mono) simp
  then have "ds ! n * 2 ^ sh \<le> 255 * 2 ^ 15" using b by (intro mult_mono) simp_all
  then have b31: "ds ! n * 2 ^ sh < 2147483648" by simp
  have cur: "js_or (d_cur d) (js_shl (ds ! n) (int sh)) = d_cur d + ds ! n * 2 ^ sh"
    using sh by (intro js_or_shl s b b31) simp
  have "ds ! n + 1 \<le> 256" using b by simp
  then have "(ds ! n + 1) * 2 ^ sh \<le> 256 * 2 ^ sh" by (intro mult_right_mono) simp_all
  moreover have "(ds ! n + 1) * 2 ^ sh = ds ! n * 2 ^ sh + 2 ^ sh" by (simp add: algebra_simps)
  moreover have "(256::int) * 2 ^ sh = 2 ^ (sh + 8)" by (simp add: power_add)
  ultimately have up: "d_cur d + ds ! n * 2 ^ sh < 2 ^ (sh + 8)"
    using s(3) by linarith
  have lo: "0 \<le> d_cur d + ds ! n * 2 ^ sh" using s(2) b(1) by simp
  have curf: "d_cur (rd_step buf d) = d_cur d + ds ! n * 2 ^ sh"
    by (simp add: rd_step_def Let_def s(1,4) ld to_int32_def cur)
  have shf: "d_cur_shift (rd_step buf d) = int (sh + 8)"
    by (simp add: rd_step_shift s(1))
  have dr: "drop n ds = ds ! n # drop (Suc n) ds" using n by (simp add: Cons_nth_drop_Suc)
  show "d_cur (rd_step buf d) + 2 ^ (sh + 8) * bytes_val (drop (Suc n) ds)
          = d_cur d + 2 ^ sh * bytes_val (drop n ds)"
    unfolding curf dr by (simp add: power_add algebra_simps)
  have rest: "if Suc n < ?N
        then d_p (rd_step buf d) = int (pos p0 (Suc n))
           \<and> d_subblock_size (rd_step buf d) =
               Some (min 255 (int ?N - 255 * int (Suc n div 255)) - int (Suc n mod 255))
        else d_subblock_size (rd_step buf d) = Some 0"
  proof (cases "min 255 (int ?N - 255 * int a) - int c = 1")
    case True
    then have e: "rd_step buf d =
        d\<lparr>d_cur := d_cur d + ds ! n * 2 ^ sh, d_cur_shift := int sh + 8,
          d_subblock_size := load buf (int (pos p0 n) + 1), d_p := int (pos p0 n) + 2\<rparr>"
      by (simp add: rd_step_def Let_def s(1,4,5) ld to_int32_def cur)
    show ?thesis
    proof (cases "Suc n < ?N")
      case False
      with n have N: "?N = Suc n" by simp
      have "int (pos p0 n) + 1 = int (term_pos p0 ?N)" unfolding N term_pos_Suc by simp
      then have "load buf (int (pos p0 n) + 1) = Some 0"
        using Tl T0 by (simp add: load_def)
      with False show ?thesis by (simp add: e)
    next
      case Suc: True
      with True ac(1,2) have c254: "c = 254" by (simp add: min_def split: if_splits)
      then have ds: "Suc n div 255 = Suc a" "Suc n mod 255 = 0"
        using ac by (simp_all add: div_Suc_255 mod_Suc)
      have p2: "pos p0 (Suc n) = pos p0 n + 2" using c254 ac(4) by (simp add: pos_Suc)
      have "255 * Suc a < ?N" using Suc ac(1) c254 by simp
      with lens have l: "uint (buf ! (p0 + 1 + 256 * Suc a)) = min 255 (int ?N - 255 * int (Suc a))"
        by blast
      have pe: "pos p0 n + 1 = p0 + 1 + 256 * Suc a" unfolding pos_def ac(3) using ac(1) c254 by simp
      have "pos p0 n + 1 < length buf"
        using pos_lt_term[OF Suc, of p0] Tl p2 by simp
      then have "load buf (int (pos p0 n) + 1) = Some (uint (buf ! (pos p0 n + 1)))"
        by (simp add: load_def nat_add_distrib)
      with l pe have "load buf (int (pos p0 n) + 1) = Some (min 255 (int ?N - 255 * int (Suc a)))"
        by simp
      with Suc show ?thesis by (simp add: e ds p2)
    qed
  next
    case False
    then have e: "rd_step buf d =
        d\<lparr>d_cur := d_cur d + ds ! n * 2 ^ sh, d_cur_shift := int sh + 8,
          d_p := int (pos p0 n) + 1,
          d_subblock_size := Some (min 255 (int ?N - 255 * int a) - int c - 1)\<rparr>"
      by (simp add: rd_step_def Let_def s(1,4,5) ld to_int32_def cur)
    have pos1: "1 \<le> min 255 (int ?N - 255 * int a) - int c" using n ac(1,2) by simp
    with False have two: "2 \<le> min 255 (int ?N - 255 * int a) - int c" by simp
    then have Suc: "Suc n < ?N" and c: "c \<noteq> 254" using ac(1,2) by simp_all
    have ds: "Suc n div 255 = a" "Suc n mod 255 = Suc c"
      using ac c by (simp_all add: div_Suc_255 mod_Suc)
    have p1: "pos p0 (Suc n) = pos p0 n + 1" using c ac(4) by (simp add: pos_Suc)
    from Suc show ?thesis by (simp add: e ds p1)
  qed
  show "SRCn p0 ds (rd_step buf d) (Suc n) (sh + 8)"
    unfolding SRCn_def using rest n sh shf curf lo up by simp
qed

lemma SRCn_more:
  assumes "SRCn p0 ds d n sh" "n < length ds"
  shows "d_subblock_size d \<noteq> Some 0"
proof -
  obtain a c where ac: "n = 255 * a + c" "c < 255" "n div 255 = a" "n mod 255 = c"
    by (rule divmod_255)
  from assms have "d_subblock_size d = Some (min 255 (int (length ds) - 255 * int a) - int c)"
    unfolding SRCn_def ac(3,4) by simp
  moreover have "1 \<le> min 255 (int (length ds) - 255 * int a) - int c"
    using assms(2) ac(1,2) by simp
  ultimately show ?thesis by simp
qed

lemma read_bytes_SRC:
  assumes F: "Framed buf p0 ds"
    and S: "SRC p0 ds d R nb"
  shows "SRC p0 ds (read_bytes buf d) R nb
       \<and> (16 \<le> d_cur_shift (read_bytes buf d) \<or> d_cur_shift (read_bytes buf d) = int nb)"
  using S
proof (induction d rule: read_bytes_induct[where buf = buf])
  case (step s)
  from step.prems obtain n sh where ns: "SRCn p0 ds s n sh"
    "R = d_cur s + 2 ^ sh * bytes_val (drop n ds)" "nb = sh + 8 * (length ds - n)"
    unfolding SRC_def by blast
  from ns(1) step.hyps(2) have n: "n < length ds" unfolding SRCn_def by (auto split: if_splits)
  from ns(1) step.hyps(1) have sh: "sh < 16" unfolding SRCn_def by simp
  note r = rd_step_SRC[OF F ns(1) n sh]
  have "SRC p0 ds (rd_step buf s) R nb"
    unfolding SRC_def using r ns(2,3) n
    by (intro exI[of _ "Suc n"] exI[of _ "sh + 8"]) simp
  from step.IH[OF this] show ?case by (simp add: read_bytes_step step.hyps)
next
  case (stop s)
  from stop.prems obtain n sh where ns: "SRCn p0 ds s n sh"
    "R = d_cur s + 2 ^ sh * bytes_val (drop n ds)" "nb = sh + 8 * (length ds - n)"
    unfolding SRC_def by blast
  have e: "read_bytes buf s = s" using stop.hyps by (rule read_bytes_stop)
  have "16 \<le> d_cur_shift s \<or> d_cur_shift s = int nb"
  proof (cases "d_cur_shift s < 16")
    case True
    with stop.hyps have "d_subblock_size s = Some 0" by simp
    with SRCn_more[OF ns(1)] have "\<not> n < length ds" by blast
    with ns(1,3) show ?thesis unfolding SRCn_def by simp
  next
    case False
    then show ?thesis by simp
  qed
  with stop.prems show ?case by (simp add: e)
qed

lemma SRC_cong:
  assumes "SRC p0 ds d R nb" "same_src d d'"
  shows "SRC p0 ds d' R nb"
proof -
  from assms(1) obtain n sh where ns: "SRCn p0 ds d n sh"
    "R = d_cur d + 2 ^ sh * bytes_val (drop n ds)" "nb = sh + 8 * (length ds - n)"
    unfolding SRC_def by blast
  from assms(2) have e: "d_p d' = d_p d" "d_subblock_size d' = d_subblock_size d"
    "d_cur d' = d_cur d" "d_cur_shift d' = d_cur_shift d"
    unfolding same_src_def by simp_all
  have "SRCn p0 ds d' n sh" using ns(1) unfolding SRCn_def e .
  with ns(2,3) e(3) show ?thesis unfolding SRC_def by auto
qed

lemma pack_append: "pack (a @ b) = pack a + 2 ^ nbits a * pack b"
  by (induction a) (auto simp: algebra_simps power_add)

lemma nbits_append: "nbits (a @ b) = nbits a + nbits b"
  by (induction a) auto

lemma cut_code:
  assumes F: "Framed buf p0 ds"
    and S: "SRC p0 ds d (c + 2 ^ w * R') nb"
    and wnb: "w \<le> nb" and c: "0 \<le> c" "c < 2 ^ w" and w12: "w \<le> 12"
    and cs: "d_cur_code_size d = int w" and mask: "d_code_mask d = 2 ^ w - 1"
  shows "\<exists>d2. decode_loop buf m L d =
            (case decode_code m L d2 c of
               None \<Rightarrow> None
             | Some (Inl r) \<Rightarrow> Some r
             | Some (Inr d3) \<Rightarrow> decode_loop buf m L d3)
          \<and> SRC p0 ds d2 R' (nb - w) \<and> same_dict d d2"
proof -
  define s1 where "s1 = read_bytes buf d"
  define s2 where "s2 = s1\<lparr>d_cur := js_sar (d_cur s1) (d_cur_code_size s1),
                      d_cur_shift := d_cur_shift s1 - d_cur_code_size s1\<rparr>"
  from read_bytes_SRC[OF F S]
  have S1: "SRC p0 ds s1 (c + 2 ^ w * R') nb"
    and av: "16 \<le> d_cur_shift s1 \<or> d_cur_shift s1 = int nb"
    unfolding s1_def by simp_all
  have f1: "d_cur_code_size s1 = int w" "d_code_mask s1 = 2 ^ w - 1"
    unfolding s1_def by (simp_all add: read_bytes_fields cs mask)
  from S1 obtain n sh where ns: "SRCn p0 ds s1 n sh"
    "c + 2 ^ w * R' = d_cur s1 + 2 ^ sh * bytes_val (drop n ds)" "nb = sh + 8 * (length ds - n)"
    unfolding SRC_def by blast
  from ns(1) have a: "n \<le> length ds" "d_cur_shift s1 = int sh" "sh < 24" "0 \<le> d_cur s1"
    "d_cur s1 < 2 ^ sh"
    unfolding SRCn_def by simp_all
  have wsh: "w \<le> sh" using av a(2) wnb w12 by auto
  then obtain t where t: "sh = w + t" using le_Suc_ex by blast
  have "(2::int) ^ sh \<le> 2 ^ 23" using a(3) by (intro pow2_le_mono) simp
  then have c31: "d_cur s1 < 2147483648" using a(5) by simp
  have e: "c + 2 ^ w * R' = d_cur s1 + 2 ^ w * (2 ^ t * bytes_val (drop n ds))"
    using ns(2) by (simp add: t power_add)
  have "(c + 2 ^ w * R') mod 2 ^ w = c" using c by simp
  moreover have "(d_cur s1 + 2 ^ w * (2 ^ t * bytes_val (drop n ds))) mod 2 ^ w = d_cur s1 mod 2 ^ w"
    by simp
  ultimately have cm: "d_cur s1 mod 2 ^ w = c" using e by simp
  have "(c + 2 ^ w * R') div 2 ^ w = R'" using c by simp
  moreover have "(d_cur s1 + 2 ^ w * (2 ^ t * bytes_val (drop n ds))) div 2 ^ w
      = d_cur s1 div 2 ^ w + 2 ^ t * bytes_val (drop n ds)"
    by simp
  ultimately have cd: "R' = d_cur s1 div 2 ^ w + 2 ^ t * bytes_val (drop n ds)" using e by simp
  have code: "js_and (d_cur s1) (d_code_mask s1) = c"
    unfolding f1 using js_and_low_bits[of w "d_cur s1"] w12 cm by simp
  have sar': "js_sar (d_cur s1) (int w) = d_cur s1 div 2 ^ w"
    using w12 by (intro js_sar_nat a c31) simp
  then have sar: "js_sar (d_cur s1) (d_cur_code_size s1) = d_cur s1 div 2 ^ w"
    unfolding f1 .
  have "d_cur s1 < 2 ^ t * 2 ^ w" using a(5) by (simp add: t power_add mult.commute)
  then have up: "d_cur s1 div 2 ^ w < 2 ^ t" by (intro div_lt_int) simp_all
  have lo: "0 \<le> d_cur s1 div 2 ^ w" using a(4) by (simp add: pos_imp_zdiv_nonneg_iff)
  have "SRCn p0 ds s2 n t"
    using ns(1) up lo unfolding SRCn_def s2_def by (simp add: t f1 sar')
  then have S2: "SRC p0 ds s2 R' (nb - w)"
    unfolding SRC_def using cd ns(3) t
    by (intro exI[of _ n] exI[of _ t]) (simp add: s2_def sar)
  have sd: "same_dict d s2"
    unfolding same_dict_def s2_def s1_def by (simp add: read_bytes_fields)
  have nlt: "\<not> d_cur_shift s1 < d_cur_code_size s1" using wsh a(2) f1 by simp
  have "decode_loop buf m L d =
            (case decode_code m L s2 c of
               None \<Rightarrow> None
             | Some (Inl r) \<Rightarrow> Some r
             | Some (Inr d3) \<Rightarrow> decode_loop buf m L d3)"
    by (subst decode_loop.simps) (simp only: Let_def s1_def[symmetric] nlt if_False code s2_def[symmetric])
  with S2 sd show ?thesis by blast
qed

lemma decode_loop_eoi:
  assumes F: "Framed buf p0 ds"
    and S: "SRC p0 ds d e nb"
    and e: "e = js_shl 1 m + 1" "0 \<le> e" "e < 2 ^ w" and w12: "w \<le> 12"
    and cs: "d_cur_code_size d = int w" and mask: "d_code_mask d = 2 ^ w - 1"
  shows "decode_loop buf m L d = Some (d_output d, Some (d_op d))"
proof -
  define s1 where "s1 = read_bytes buf d"
  define s2 where "s2 = s1\<lparr>d_cur := js_sar (d_cur s1) (d_cur_code_size s1),
                      d_cur_shift := d_cur_shift s1 - d_cur_code_size s1\<rparr>"
  from read_bytes_SRC[OF F S] have S1: "SRC p0 ds s1 e nb" unfolding s1_def by simp
  have f1: "d_cur_code_size s1 = int w" "d_code_mask s1 = 2 ^ w - 1"
    "d_output s1 = d_output d" "d_op s1 = d_op d"
    unfolding s1_def by (simp_all add: read_bytes_fields cs mask)
  show ?thesis
  proof (cases "d_cur_shift s1 < d_cur_code_size s1")
    case True
    have "decode_loop buf m L d = Some (d_output s1, Some (d_op s1))"
      by (subst decode_loop.simps) (simp only: Let_def s1_def[symmetric] True if_True)
    then show ?thesis by (simp add: f1)
  next
    case False
    from S1 obtain n sh where ns: "SRCn p0 ds s1 n sh"
      "e = d_cur s1 + 2 ^ sh * bytes_val (drop n ds)"
      unfolding SRC_def by blast
    from ns(1) have a: "d_cur_shift s1 = int sh" unfolding SRCn_def by simp
    from False a f1 have wsh: "w \<le> sh" by simp
    then obtain t where t: "sh = w + t" using le_Suc_ex by blast
    have "e = d_cur s1 + 2 ^ w * (2 ^ t * bytes_val (drop n ds))"
      using ns(2) by (simp add: t power_add)
    then have "e mod 2 ^ w = d_cur s1 mod 2 ^ w" by simp
    with e have cm: "d_cur s1 mod 2 ^ w = e" by simp
    have code: "js_and (d_cur s1) (d_code_mask s1) = e"
      unfolding f1 using js_and_low_bits[of w "d_cur s1"] w12 cm by simp
    have dc: "decode_code m L s2 e = Some (Inl (d_output s2, Some (d_op s2)))"
      unfolding decode_code_def Let_def using e(1) by simp
    have "decode_loop buf m L d =
            (case decode_code m L s2 e of
               None \<Rightarrow> None
             | Some (Inl r) \<Rightarrow> Some r
             | Some (Inr d3) \<Rightarrow> decode_loop buf m L d3)"
      by (subst decode_loop.simps)
         (simp only: Let_def s1_def[symmetric] False if_False code s2_def[symmetric])
    then show ?thesis unfolding dc by (simp add: s2_def f1)
  qed
qed

lemma phrase_nonempty: "phrase m D c w \<Longrightarrow> w \<noteq> []"
  by (induction rule: phrase.induct) simp_all

lemma phrase_nonneg: "phrase m D c w \<Longrightarrow> 0 \<le> c"
proof (induction rule: phrase.induct)
  case (lit c)
  then show ?case by simp
next
  case (ent c w)
  have "(0::int) \<le> 2 ^ m + 2" by simp
  with ent(1) show ?case by linarith
qed

lemma phrase_upd: "phrase m D c w \<Longrightarrow> c < n \<Longrightarrow> phrase m (D(n := v)) c w"
proof (induction rule: phrase.induct)
  case (lit c)
  then show ?case by (intro phrase.lit)
next
  case (ent c w)
  from ent.prems have e: "(D(n := v)) c = D c" by simp
  have "D c div 256 < n" using ent.hyps(4) ent.prems by simp
  then have "phrase m (D(n := v)) (D c div 256) w" by (rule ent.IH)
  then have "phrase m (D(n := v)) c (w @ [(D(n := v)) c mod 256])"
    using ent.hyps unfolding e[symmetric] by (intro phrase.ent) simp_all
  then show ?case unfolding e .
qed

lemma phrase_hd_lit: "phrase m D c w \<Longrightarrow> 0 \<le> hd w \<and> hd w < 2 ^ m"
proof (induction rule: phrase.induct)
  case (lit c)
  then show ?case by simp
next
  case (ent c w)
  with phrase_nonempty[OF ent.hyps(5)] show ?case by simp
qed

lemma chase_to_literal_phrase:
  assumes "phrase m D c w"
    and "\<forall>c'. 2 ^ m + 2 \<le> c' \<and> c' \<le> c \<longrightarrow> t c' = D c'"
    and "c < 4096"
  shows "chase_to_literal t (2 ^ m) c n = Some (hd w, n + (length w - 1))"
  using assms
proof (induction arbitrary: n rule: phrase.induct)
  case (lit c)
  then show ?case by (subst chase_to_literal.simps) simp
next
  case (ent c w)
  have "(0::int) \<le> 2 ^ m + 2" by simp
  with ent.hyps(1) have c0: "0 \<le> c" by linarith
  have tg: "tbl_get t c = D c" using ent.prems c0 ent.hyps(1) by (simp add: tbl_get_def)
  have sar: "js_sar (D c) 8 = D c div 256"
    using js_sar_nat[of "D c" 8] ent.hyps(2,3) by simp
  have gt: "c > 2 ^ m" using ent.hyps(1) by simp
  have ih: "chase_to_literal t (2 ^ m) (D c div 256) (Suc n) = Some (hd w, Suc n + (length w - 1))"
    using ent.prems ent.hyps(4) by (intro ent.IH) auto
  have ne: "w \<noteq> []" using ent.hyps(5) by (rule phrase_nonempty)
  then have "length w \<ge> 1" by (cases w) simp_all
  then show ?case
    by (subst chase_to_literal.simps) (simp add: gt tg sar ih ne)
qed

lemma chase_write_phrase:
  assumes "phrase m D c w"
    and "\<forall>c'. 2 ^ m + 2 \<le> c' \<and> c' \<le> c \<longrightarrow> t c' = D c'"
    and "c < 4096"
    and "o' + length w \<le> length out"
  shows "length (chase_write t (length w - 1) c (int (o' + length w)) out) = length out
       \<and> (\<forall>i. i \<le> o' \<or> o' + length w \<le> i \<longrightarrow>
             chase_write t (length w - 1) c (int (o' + length w)) out ! i = out ! i)
       \<and> (\<forall>j. 1 \<le> j \<and> j < length w \<longrightarrow>
             chase_write t (length w - 1) c (int (o' + length w)) out ! (o' + j) = word_of_int (w ! j))"
  using assms
proof (induction arbitrary: out rule: phrase.induct)
  case (lit c)
  then show ?case by simp
next
  case (ent c w)
  let ?k = "D c mod 256"
  let ?b = "o' + length w"
  let ?out1 = "out[?b := word_of_int ?k]"
  let ?r = "chase_write t (length w - 1) (D c div 256) (int ?b) ?out1"
  have "(0::int) \<le> 2 ^ m + 2" by simp
  with ent.hyps(1) have c0: "0 \<le> c" by linarith
  have tg: "tbl_get t c = D c" using ent.prems c0 ent.hyps(1) by (simp add: tbl_get_def)
  have sar: "js_sar (D c) 8 = D c div 256"
    using js_sar_nat[of "D c" 8] ent.hyps(2,3) by simp
  have ne: "w \<noteq> []" using ent.hyps(5) by (rule phrase_nonempty)
  then have l1: "length w \<ge> 1" by (cases w) simp_all
  then obtain n' where n': "length w = Suc n'" by (cases "length w") simp_all
  have bl: "?b < length out" using ent.prems(3) by simp
  have st: "store out (int (o' + length (w @ [?k])) - 1) (js_and (D c) 0xFF) = ?out1"
  proof -
    have "int (o' + length (w @ [?k])) - 1 = int ?b" by simp
    then show ?thesis by (simp only: store_int js_and_255)
  qed
  have e: "chase_write t (length (w @ [?k]) - 1) c (int (o' + length (w @ [?k]))) out = ?r"
  proof -
    have "chase_write t (Suc n') c (int (o' + length (w @ [?k]))) out
        = chase_write t n' (js_sar (tbl_get t c) 8) (int (o' + length (w @ [?k])) - 1)
            (store out (int (o' + length (w @ [?k])) - 1) (js_and (tbl_get t c) 0xFF))"
      by (simp only: chase_write.simps Let_def)
    then show ?thesis unfolding tg sar st by (simp add: n')
  qed
  have ih: "length ?r = length ?out1
       \<and> (\<forall>i. i \<le> o' \<or> ?b \<le> i \<longrightarrow> ?r ! i = ?out1 ! i)
       \<and> (\<forall>j. 1 \<le> j \<and> j < length w \<longrightarrow> ?r ! (o' + j) = word_of_int (w ! j))"
    using ent.prems ent.hyps(4) by (intro ent.IH) auto
  then have ih1: "length ?r = length ?out1"
    and ih2: "\<And>i. i \<le> o' \<or> ?b \<le> i \<Longrightarrow> ?r ! i = ?out1 ! i"
    and ih3: "\<And>j. 1 \<le> j \<Longrightarrow> j < length w \<Longrightarrow> ?r ! (o' + j) = word_of_int (w ! j)"
    by blast+
  show ?case unfolding e
  proof (intro conjI allI impI)
    show "length ?r = length out" using ih1 by simp
    show "?r ! i = out ! i" if "i \<le> o' \<or> o' + length (w @ [?k]) \<le> i" for i
    proof -
      from that l1 have a: "i \<le> o' \<or> ?b \<le> i" and b: "i \<noteq> ?b" by auto
      have "?r ! i = ?out1 ! i" using a by (rule ih2)
      also have "\<dots> = out ! i" using b by simp
      finally show ?thesis .
    qed
    show "?r ! (o' + j) = word_of_int ((w @ [?k]) ! j)" if "1 \<le> j \<and> j < length (w @ [?k])" for j
    proof (cases "j < length w")
      case True
      with that ih3[of j] show ?thesis by (simp add: nth_append)
    next
      case False
      with that have j: "j = length w" by simp
      have "?r ! ?b = ?out1 ! ?b" by (rule ih2) simp
      with bl show ?thesis by (simp add: j)
    qed
  qed
qed

lemma OUTW_normal:
  assumes ph: "phrase m D c w"
    and ag: "\<forall>c'. 2 ^ m + 2 \<le> c' \<and> c' \<le> c \<longrightarrow> t c' = D c'"
    and c: "c < 4096"
    and len: "o' + length w \<le> length out"
  shows "OUTW out o' w
            (chase_write t (length w - 1) c (int (o' + length w)) (out[o' := word_of_int (hd w)]))"
proof -
  let ?out1 = "out[o' := word_of_int (hd w)]"
  let ?r = "chase_write t (length w - 1) c (int (o' + length w)) ?out1"
  have ne: "w \<noteq> []" using ph by (rule phrase_nonempty)
  then have l1: "length w \<ge> 1" by (cases w) simp_all
  have "o' + length w \<le> length ?out1" using len by simp
  from chase_write_phrase[OF ph ag c this]
  have r: "length ?r = length ?out1"
    "\<And>i. i \<le> o' \<or> o' + length w \<le> i \<Longrightarrow> ?r ! i = ?out1 ! i"
    "\<And>j. 1 \<le> j \<Longrightarrow> j < length w \<Longrightarrow> ?r ! (o' + j) = word_of_int (w ! j)"
    by blast+
  show ?thesis unfolding OUTW_def
  proof (intro conjI allI impI)
    show "length ?r = length out" using r(1) by simp
    show "?r ! i = out ! i" if "i < o'" for i using r(2)[of i] that by simp
    show "?r ! (o' + j) = word_of_int (w ! j)" if "j < length w" for j
    proof (cases "j = 0")
      case True
      have "?r ! o' = ?out1 ! o'" by (rule r(2)) simp
      also have "\<dots> = word_of_int (hd w)" using len l1 by simp
      finally show ?thesis using True ne by (simp add: hd_conv_nth)
    next
      case False
      with that r(3)[of j] show ?thesis by simp
    qed
  qed
qed

lemma OUTW_kwkwk:
  assumes ph: "phrase m D c u"
    and ag: "\<forall>c'. 2 ^ m + 2 \<le> c' \<and> c' \<le> c \<longrightarrow> t c' = D c'"
    and c: "c < 4096"
    and len: "o' + length u + 1 \<le> length out"
  shows "OUTW out o' (u @ [hd u])
            (chase_write t (length u - 1) c (int (o' + length u))
               (out[o' := word_of_int (hd u), o' + length u := word_of_int (hd u)]))"
proof -
  let ?out2 = "out[o' := word_of_int (hd u), o' + length u := word_of_int (hd u)]"
  let ?r = "chase_write t (length u - 1) c (int (o' + length u)) ?out2"
  have ne: "u \<noteq> []" using ph by (rule phrase_nonempty)
  then have l1: "length u \<ge> 1" by (cases u) simp_all
  have "o' + length u \<le> length ?out2" using len by simp
  from chase_write_phrase[OF ph ag c this]
  have r: "length ?r = length ?out2"
    "\<And>i. i \<le> o' \<or> o' + length u \<le> i \<Longrightarrow> ?r ! i = ?out2 ! i"
    "\<And>j. 1 \<le> j \<Longrightarrow> j < length u \<Longrightarrow> ?r ! (o' + j) = word_of_int (u ! j)"
    by blast+
  show ?thesis unfolding OUTW_def
  proof (intro conjI allI impI)
    show "length ?r = length out" using r(1) by simp
    show "?r ! i = out ! i" if "i < o'" for i using r(2)[of i] that by simp
    show "?r ! (o' + j) = word_of_int ((u @ [hd u]) ! j)" if "j < length (u @ [hd u])" for j
    proof -
      have "j = 0 \<or> (1 \<le> j \<and> j < length u) \<or> j = length u" using that by auto
      then consider "j = 0" | "1 \<le> j" "j < length u" | "j = length u" by blast
      then show ?thesis
      proof cases
        case 1
        have "?r ! o' = ?out2 ! o'" by (rule r(2)) simp
        also have "\<dots> = word_of_int (hd u)" using len l1 by (simp add: nth_list_update)
        finally show ?thesis using 1 ne by (simp add: hd_conv_nth nth_append)
      next
        case 2
        with r(3)[of j] show ?thesis by (simp add: nth_append)
      next
        case 3
        have "?r ! (o' + length u) = ?out2 ! (o' + length u)" by (rule r(2)) simp
        also have "\<dots> = word_of_int (hd u)" using len by (simp add: nth_list_update)
        finally show ?thesis using 3 by simp
      qed
    qed
  qed
qed

lemma js_or_commute: "js_or a b = js_or b a"
  by (simp add: js_or_def or.commute)

lemma js_key: 
  assumes "0 \<le> k" "k < 256" "0 \<le> pc" "pc < 4096"
  shows "js_or (js_shl pc 8) k = pc * 256 + k"
proof -
  have "pc * 2 ^ 8 < 2147483648" using assms(4) by simp
  from js_or_shl[of k 8 pc, OF assms(1) _ assms(3) this] assms(2)
  show ?thesis by (simp add: js_or_commute)
qed

lemma js_mask_grow:
  assumes "cs \<le> 12"
  shows "js_or (js_shl (2 ^ cs - 1) 1) 1 = 2 ^ (cs + 1) - 1"
proof -
  have "(2::int) ^ cs \<le> 2 ^ 12" using assms by (rule pow2_le_mono)
  then have b: "(2 ^ cs - 1) * 2 ^ 1 < (2147483648::int)" by simp
  have "(0::int) \<le> 2 ^ cs - 1" by simp
  from js_or_shl[of 1 1 "2 ^ cs - 1", OF _ _ this b]
  show ?thesis by (simp add: js_or_commute)
qed

lemma decode_code_eq:
  assumes "code \<noteq> js_shl 1 m" "code \<noteq> js_shl 1 m + 1"
    and "chase_to_literal (d_code_table s) (js_shl 1 m)
           (to_int32 (if code < d_next_code s then Some code else d_prev_code s)) 0 = Some (k, n)"
    and "\<not> d_op s + int n + (if (if code < d_next_code s then Some code else d_prev_code s) \<noteq> Some code
                              then 1 else 0) > L"
  shows "decode_code m L s code =
     Some (Inr ((dec_insert
        (s\<lparr>d_output :=
              chase_write (d_code_table s) n
                (to_int32 (if code < d_next_code s then Some code else d_prev_code s))
                (d_op s + 1 + int n)
                (if (if code < d_next_code s then Some code else d_prev_code s) \<noteq> Some code
                 then store (store (d_output s) (d_op s) k) (d_op s + 1 + int n) k
                 else store (d_output s) (d_op s) k),
            d_op := (if (if code < d_next_code s then Some code else d_prev_code s) \<noteq> Some code
                     then d_op s + 1 + int n + 1 else d_op s + 1 + int n)\<rparr>) k)
        \<lparr>d_prev_code := Some code\<rparr>))"
  using assms unfolding decode_code_def dec_insert_def Let_def by simp

lemma dec_insert_none:
  "d_prev_code s = None \<Longrightarrow> dec_insert s k = s"
  by (simp add: dec_insert_def)

lemma dec_insert_some:
  assumes pv: "d_prev_code s = Some pc" and pc: "0 \<le> pc" "pc < 4096"
    and k: "0 \<le> k" "k < 256"
    and nx: "0 \<le> d_next_code s" "d_next_code s < 4096"
    and cs: "d_cur_code_size s = int cs" "d_code_mask s = 2 ^ cs - 1" "cs \<le> 12"
  shows "dec_insert s k =
           s\<lparr>d_code_table := (d_code_table s)(d_next_code s := pc * 256 + k),
             d_next_code := d_next_code s + 1,
             d_cur_code_size := (if d_next_code s + 1 \<ge> 2 ^ cs \<and> cs < 12 then int (cs + 1) else int cs),
             d_code_mask := (if d_next_code s + 1 \<ge> 2 ^ cs \<and> cs < 12 then 2 ^ (cs + 1) - 1 else 2 ^ cs - 1)\<rparr>"
proof -
  have key: "js_or (js_shl pc 8) k = pc * 256 + k" using k pc by (rule js_key)
  have "pc * 256 + k < 2147483648" using pc k by simp
  moreover have "0 \<le> pc * 256 + k" using pc k by simp
  ultimately have i32: "js_int32 (pc * 256 + k) = pc * 256 + k" by (intro js_int32_nonneg)
  have ts: "tbl_set (d_code_table s) (d_next_code s) (pc * 256 + k)
             = (d_code_table s)(d_next_code s := pc * 256 + k)"
    using nx by (simp add: tbl_set_def i32)
  show ?thesis
    unfolding dec_insert_def Let_def
    using nx(2) by (simp add: pv to_int32_def key ts cs(1,2) js_mask_grow[OF cs(3)])
qed

lemma decode_code_phrase:
  assumes m: "2 \<le> m" "m \<le> 8"
    and ph: "phrase m D code w"
    and cn: "code < nx" "nx \<le> 4096"
    and ag: "\<forall>c. 2 ^ m + 2 \<le> c \<and> c < d_next_code d \<longrightarrow> d_code_table d c = D c"
    and N0: "2 ^ m + 2 \<le> d_next_code d"
    and prev: "(d_prev_code d = None \<and> d_next_code d = nx)
             \<or> (\<exists>pc. d_prev_code d = Some pc \<and> d_next_code d + 1 = nx
                    \<and> D (d_next_code d) = pc * 256 + hd w \<and> 0 \<le> pc \<and> pc < 4096)"
    and op: "d_op d = int o'" "o' + length w \<le> length (d_output d)" "length (d_output d) = L"
    and cs: "d_cur_code_size d = int cs" "d_code_mask d = 2 ^ cs - 1" "cs \<le> 12"
  shows "\<exists>d'. decode_code (int m) (int L) d code = Some (Inr d')
          \<and> same_src d d' \<and> d_prev_code d' = Some code \<and> d_op d' = int (o' + length w)
          \<and> OUTW (d_output d) o' w (d_output d')
          \<and> d_next_code d' = nx
          \<and> (\<forall>c. 2 ^ m + 2 \<le> c \<and> c < nx \<longrightarrow> d_code_table d' c = D c)
          \<and> d_cur_code_size d' = int (if d_prev_code d \<noteq> None \<and> nx \<ge> 2 ^ cs \<and> cs < 12 then cs + 1 else cs)
          \<and> d_code_mask d' = 2 ^ (if d_prev_code d \<noteq> None \<and> nx \<ge> 2 ^ cs \<and> cs < 12 then cs + 1 else cs) - 1"
proof -
  let ?t = "d_code_table d"
  have cc: "js_shl 1 (int m) = 2 ^ m" using js_shl_1[of "int m"] m by simp
  have "(2::int) ^ m \<le> 2 ^ 8" using m(2) by (rule pow2_le_mono)
  then have m256: "(2::int) ^ m \<le> 256" by simp
  from phrase_hd_lit[OF ph] m256 have hw: "0 \<le> hd w" "hd w < 256" by simp_all
  have code0: "0 \<le> code" using ph by (rule phrase_nonneg)
  have c4096: "code < 4096" using cn by simp
  have cne: "code \<noteq> 2 ^ m" "code \<noteq> 2 ^ m + 1"
    using ph by (cases rule: phrase.cases; simp)+
  have ne: "w \<noteq> []" using ph by (rule phrase_nonempty)
  then have l1: "1 \<le> length w" by (cases w) simp_all
  have "\<exists>out3. decode_code (int m) (int L) d code
            = Some (Inr ((dec_insert (d\<lparr>d_output := out3, d_op := int (o' + length w)\<rparr>) (hd w))
                           \<lparr>d_prev_code := Some code\<rparr>))
          \<and> OUTW (d_output d) o' w out3"
  proof (cases "code < d_next_code d")
    case True
    have ag': "\<forall>c'. 2 ^ m + 2 \<le> c' \<and> c' \<le> code \<longrightarrow> ?t c' = D c'" using ag True by simp
    have ch: "chase_to_literal ?t (2 ^ m) code 0 = Some (hd w, 0 + (length w - 1))"
      using ph ag' c4096 by (rule chase_to_literal_phrase)
    have e1: "int o' + 1 + int (length w - 1) = int (o' + length w)" using l1 by simp
    have st: "store (d_output d) (int o') (hd w) = (d_output d)[o' := word_of_int (hd w)]"
      by (simp only: store_int)
    have "decode_code (int m) (int L) d code
        = Some (Inr ((dec_insert
            (d\<lparr>d_output := chase_write ?t (length w - 1) code (int (o' + length w))
                               ((d_output d)[o' := word_of_int (hd w)]),
                d_op := int (o' + length w)\<rparr>) (hd w))
            \<lparr>d_prev_code := Some code\<rparr>))"
      using decode_code_eq[of code "int m" d "hd w" "length w - 1" "int L"] cne ch True op l1
      by (simp add: cc to_int32_def e1 st)
    moreover have "OUTW (d_output d) o' w
            (chase_write ?t (length w - 1) code (int (o' + length w))
               ((d_output d)[o' := word_of_int (hd w)]))"
      using ph ag' c4096 op(2) by (rule OUTW_normal)
    ultimately show ?thesis by blast
  next
    case False
    with prev cn obtain pc where pc: "d_prev_code d = Some pc" "d_next_code d + 1 = nx"
      "D (d_next_code d) = pc * 256 + hd w" "0 \<le> pc" "pc < 4096"
      by auto
    from False pc(2) cn have ce: "code = d_next_code d" by simp
    have Dc: "D code = pc * 256 + hd w" using pc(3) ce by simp
    have dv: "D code div 256 = pc" "D code mod 256 = hd w" using hw unfolding Dc by simp_all
    from ph N0 ce obtain u where u: "w = u @ [D code mod 256]" "phrase m D (D code div 256) u"
      "D code div 256 < code"
      by (cases rule: phrase.cases) auto
    have une: "u \<noteq> []" using u(2) by (rule phrase_nonempty)
    then have lu: "1 \<le> length u" by (cases u) simp_all
    have hu: "hd u = hd w" using u(1) une by simp
    have w: "w = u @ [hd u]" using u(1) dv(2) hu by simp
    have phu: "phrase m D pc u" using u(2) dv(1) by simp
    have pcl: "pc < code" using u(3) dv(1) by simp
    have ag': "\<forall>c'. 2 ^ m + 2 \<le> c' \<and> c' \<le> pc \<longrightarrow> ?t c' = D c'" using ag pcl ce by simp
    have ch: "chase_to_literal ?t (2 ^ m) pc 0 = Some (hd u, 0 + (length u - 1))"
      using phu ag' pc(5) by (rule chase_to_literal_phrase)
    have lw: "length w = length u + 1" using u(1) by simp
    have e1: "int o' + 1 + int (length u - 1) = int (o' + length u)" using lu by simp
    have st: "store (store (d_output d) (int o') (hd u)) (int (o' + length u)) (hd u)
              = (d_output d)[o' := word_of_int (hd u), o' + length u := word_of_int (hd u)]"
      by (simp only: store_int)
    have st2: "store b (int o' + int (length u)) v = b[o' + length u := word_of_int v]" for b v
      using store_int[of b "o' + length u" v] by simp
    have ne2: "Some pc \<noteq> Some code" using pcl by simp
    have "decode_code (int m) (int L) d code
        = Some (Inr ((dec_insert
            (d\<lparr>d_output := chase_write ?t (length u - 1) pc (int (o' + length u))
                    ((d_output d)[o' := word_of_int (hd u), o' + length u := word_of_int (hd u)]),
                d_op := int (o' + length w)\<rparr>) (hd w))
            \<lparr>d_prev_code := Some code\<rparr>))"
      using decode_code_eq[of code "int m" d "hd u" "length u - 1" "int L"] cne ch False op lu pcl
      by (simp add: cc to_int32_def pc(1) e1 st st2 lw hu add.commute)
    moreover have "OUTW (d_output d) o' (u @ [hd u])
            (chase_write ?t (length u - 1) pc (int (o' + length u))
               ((d_output d)[o' := word_of_int (hd u), o' + length u := word_of_int (hd u)]))"
      using phu ag' pc(5) op(2) lw by (intro OUTW_kwkwk) simp_all
    ultimately show ?thesis using w by metis
  qed
  then obtain out3 where dc: "decode_code (int m) (int L) d code
            = Some (Inr ((dec_insert (d\<lparr>d_output := out3, d_op := int (o' + length w)\<rparr>) (hd w))
                           \<lparr>d_prev_code := Some code\<rparr>))"
    and ow: "OUTW (d_output d) o' w out3"
    by blast
  define q where "q = int (o' + length w)"
  note dc' = dc[folded q_def]
  let ?d1 = "d\<lparr>d_output := out3, d_op := q\<rparr>"
  let ?d' = "(dec_insert ?d1 (hd w))\<lparr>d_prev_code := Some code\<rparr>"
  show ?thesis
  proof (cases "d_prev_code d")
    case None
    with prev have nx: "d_next_code d = nx" by auto
    have di: "dec_insert ?d1 (hd w) = ?d1" by (rule dec_insert_none) (simp add: None)
    have "decode_code (int m) (int L) d code = Some (Inr ?d')" by (rule dc')
    moreover have "same_src d ?d'" "d_prev_code ?d' = Some code" "d_op ?d' = int (o' + length w)"
      "OUTW (d_output d) o' w (d_output ?d')" "d_next_code ?d' = nx"
      "\<forall>c. 2 ^ m + 2 \<le> c \<and> c < nx \<longrightarrow> d_code_table ?d' c = D c"
      "d_cur_code_size ?d' = int (if d_prev_code d \<noteq> None \<and> nx \<ge> 2 ^ cs \<and> cs < 12 then cs + 1 else cs)"
      "d_code_mask ?d' = 2 ^ (if d_prev_code d \<noteq> None \<and> nx \<ge> 2 ^ cs \<and> cs < 12 then cs + 1 else cs) - 1"
      unfolding di using ow ag nx cs None by (simp_all add: same_src_def q_def)
    ultimately show ?thesis by blast
  next
    case (Some pc')
    with prev obtain pc where pc: "d_prev_code d = Some pc" "d_next_code d + 1 = nx"
      "D (d_next_code d) = pc * 256 + hd w" "0 \<le> pc" "pc < 4096"
      by auto
    have "(0::int) \<le> 2 ^ m + 2" by simp
    with N0 have nx0: "0 \<le> d_next_code d" by linarith
    have nx1: "d_next_code d < 4096" using pc(2) cn(2) by simp
    have di: "dec_insert ?d1 (hd w) =
           ?d1\<lparr>d_code_table := (d_code_table ?d1)(d_next_code ?d1 := pc * 256 + hd w),
             d_next_code := d_next_code ?d1 + 1,
             d_cur_code_size := (if d_next_code ?d1 + 1 \<ge> 2 ^ cs \<and> cs < 12 then int (cs + 1) else int cs),
             d_code_mask := (if d_next_code ?d1 + 1 \<ge> 2 ^ cs \<and> cs < 12 then 2 ^ (cs + 1) - 1 else 2 ^ cs - 1)\<rparr>"
      using hw pc nx0 nx1 cs by (intro dec_insert_some) simp_all
    have tab: "\<forall>c. 2 ^ m + 2 \<le> c \<and> c < nx \<longrightarrow> ((d_code_table d)(d_next_code d := pc * 256 + hd w)) c = D c"
      using ag pc(2,3) by auto
    have "decode_code (int m) (int L) d code = Some (Inr ?d')" by (rule dc')
    moreover have "same_src d ?d'" "d_prev_code ?d' = Some code" "d_op ?d' = int (o' + length w)"
      "OUTW (d_output d) o' w (d_output ?d')" "d_next_code ?d' = nx"
      "\<forall>c. 2 ^ m + 2 \<le> c \<and> c < nx \<longrightarrow> d_code_table ?d' c = D c"
      "d_cur_code_size ?d' = int (if d_prev_code d \<noteq> None \<and> nx \<ge> 2 ^ cs \<and> cs < 12 then cs + 1 else cs)"
      "d_code_mask ?d' = 2 ^ (if d_prev_code d \<noteq> None \<and> nx \<ge> 2 ^ cs \<and> cs < 12 then cs + 1 else cs) - 1"
      unfolding di using ow tab pc(1,2) cs by (simp_all add: same_src_def q_def)
    ultimately show ?thesis by blast
  qed
qed

lemma emit_byte_en:
  "en_next_code (emit_byte s) = en_next_code s"
  "en_cur_code_size (emit_byte s) = en_cur_code_size s"
  "en_ib_code (emit_byte s) = en_ib_code s"
  "en_code_table (emit_byte s) = en_code_table s"
  by (simp_all add: emit_byte_def Let_def)

lemma emit_code_en [simp]:
  "en_next_code (emit_code w c s) = en_next_code s"
  "en_cur_code_size (emit_code w c s) = en_cur_code_size s"
  "en_ib_code (emit_code w c s) = en_ib_code s"
  "en_code_table (emit_code w c s) = en_code_table s"
  unfolding emit_code_def
  by (simp_all add: emit_bytes_pres[of en_next_code, OF emit_byte_en(1)]
        emit_bytes_pres[of en_cur_code_size, OF emit_byte_en(2)]
        emit_bytes_pres[of en_ib_code, OF emit_byte_en(3)]
        emit_bytes_pres[of en_code_table, OF emit_byte_en(4)])

lemma encode_index_hit:
  "en_code_table s (enc_key m s x) = Some c \<Longrightarrow> encode_index m s x = s\<lparr>en_ib_code := c\<rparr>"
  by (simp add: encode_index_def Let_def enc_key_def enc_k_def)

lemma encode_index_miss:
  assumes "en_code_table s (enc_key m s x) = None" "en_next_code s \<noteq> 4096"
  shows "en_next_code (encode_index m s x) = en_next_code s + 1"
    and "en_cur_code_size (encode_index m s x)
          = (if en_next_code s \<ge> js_shl 1 (en_cur_code_size s)
             then en_cur_code_size s + 1 else en_cur_code_size s)"
    and "en_ib_code (encode_index m s x) = enc_k m x"
    and "en_code_table (encode_index m s x) = (en_code_table s)(enc_key m s x \<mapsto> en_next_code s)"
  using assms by (simp_all add: encode_index_def Let_def enc_key_def enc_k_def)

lemma encode_index_clear:
  assumes "en_code_table s (enc_key m s x) = None" "en_next_code s = 4096"
  shows "en_next_code (encode_index m s x) = js_shl 1 m + 1 + 1"
    and "en_cur_code_size (encode_index m s x) = m + 1"
    and "en_ib_code (encode_index m s x) = enc_k m x"
    and "en_code_table (encode_index m s x) = Map.empty"
  using assms by (simp_all add: encode_index_def Let_def enc_key_def enc_k_def)

lemma pow2_m_bounds:
  assumes "2 \<le> m" "m \<le> 8"
  shows "(4::int) \<le> 2 ^ m" "(2::int) ^ m \<le> 256" "(2::int) ^ m + 2 < 2 ^ (m + 1)"
proof -
  have "(2::int) ^ 2 \<le> 2 ^ m" using assms(1) by (rule pow2_le_mono)
  then show a: "(4::int) \<le> 2 ^ m" by simp
  have "(2::int) ^ m \<le> 2 ^ 8" using assms(2) by (rule pow2_le_mono)
  then show "(2::int) ^ m \<le> 256" by simp
  from a show "(2::int) ^ m + 2 < 2 ^ (m + 1)" by simp
qed

lemma enc_k_eq:
  assumes "2 \<le> m" "m \<le> 8" "uint x < 2 ^ m"
  shows "enc_k (int m) x = uint x"
proof -
  have "js_shl 1 (int m) = 2 ^ m" using js_shl_1[of "int m"] assms by simp
  then have "enc_k (int m) x = uint x mod 2 ^ m"
    unfolding enc_k_def using js_and_low_bits[of m "uint x"] assms(2) by simp
  with assms(3) show ?thesis by simp
qed

lemma enc_key_eq:
  assumes "2 \<le> m" "m \<le> 8" "uint x < 2 ^ m" "0 \<le> en_ib_code s" "en_ib_code s < 4096"
  shows "enc_key (int m) s x = en_ib_code s * 256 + uint x"
proof -
  have "uint x < 256" using assms(3) pow2_m_bounds(2)[OF assms(1,2)] by simp
  then show ?thesis
    unfolding enc_key_def enc_k_eq[OF assms(1-3)] using assms(4,5) by (intro js_key) simp_all
qed

lemma EI_hit:
  assumes m: "2 \<le> m" "m \<le> 8" and E: "EI m D s" and ph: "phrase m D (en_ib_code s) w"
    and x: "uint x < 2 ^ m"
    and hit: "en_code_table s (enc_key (int m) s x) = Some c"
  shows "EI m D (encode_index (int m) s x)"
    and "phrase m D (en_ib_code (encode_index (int m) s x)) (w @ [uint x])"
    and "en_next_code (encode_index (int m) s x) = en_next_code s"
    and "en_cur_code_size (encode_index (int m) s x) = en_cur_code_size s"
    and "step_codes (int m) s x = []"
proof -
  have e: "encode_index (int m) s x = s\<lparr>en_ib_code := c\<rparr>" using hit by (rule encode_index_hit)
  have ib0: "0 \<le> en_ib_code s" using ph by (rule phrase_nonneg)
  from E have nx: "en_next_code s \<le> 4096" and ibn: "en_ib_code s < en_next_code s"
    and tab: "\<forall>key c. en_code_table s key = Some c
                 \<longleftrightarrow> 2 ^ m + 2 \<le> c \<and> c < en_next_code s \<and> D c = key"
    and wf: "\<forall>c. 2 ^ m + 2 \<le> c \<and> c < en_next_code s
             \<longrightarrow> 0 \<le> D c \<and> D c < 1048576 \<and> D c div 256 < c"
    unfolding EI_def by blast+
  have key: "enc_key (int m) s x = en_ib_code s * 256 + uint x"
    using m x ib0 ibn nx by (intro enc_key_eq) simp_all
  from tab hit have c: "2 ^ m + 2 \<le> c" "c < en_next_code s" "D c = en_ib_code s * 256 + uint x"
    unfolding key by blast+
  from wf c have w: "0 \<le> D c" "D c < 1048576" "D c div 256 < c" by blast+
  have x256: "uint x < 256" using x pow2_m_bounds(2)[OF m] by simp
  have dv: "D c div 256 = en_ib_code s" "D c mod 256 = uint x"
    unfolding c(3) using x256 by simp_all
  show "EI m D (encode_index (int m) s x)"
    using E c(2) unfolding e EI_def by simp
  have "phrase m D c (w @ [D c mod 256])"
    using c(1) w ph unfolding dv(1)[symmetric] by (intro phrase.ent)
  then show "phrase m D (en_ib_code (encode_index (int m) s x)) (w @ [uint x])"
    unfolding e dv(2) by simp
  show "en_next_code (encode_index (int m) s x) = en_next_code s"
    "en_cur_code_size (encode_index (int m) s x) = en_cur_code_size s"
    unfolding e by simp_all
  show "step_codes (int m) s x = []" by (simp add: step_codes_def hit)
qed

lemma EI_miss:
  assumes m: "2 \<le> m" "m \<le> 8" and E: "EI m D s" and ph: "phrase m D (en_ib_code s) w"
    and x: "uint x < 2 ^ m"
    and miss: "en_code_table s (enc_key (int m) s x) = None"
    and n4: "en_next_code s \<noteq> 4096"
    and cs: "en_cur_code_size s = int cs"
  shows "EI m (D(en_next_code s := en_ib_code s * 256 + uint x)) (encode_index (int m) s x)"
    and "en_ib_code (encode_index (int m) s x) = uint x"
    and "en_next_code (encode_index (int m) s x) = en_next_code s + 1"
    and "en_cur_code_size (encode_index (int m) s x)
           = int (if en_next_code s \<ge> 2 ^ cs then cs + 1 else cs)"
    and "step_codes (int m) s x = [(en_ib_code s, cs)]"
proof -
  let ?s' = "encode_index (int m) s x"
  let ?nx = "en_next_code s"
  let ?key = "en_ib_code s * 256 + uint x"
  have ib0: "0 \<le> en_ib_code s" using ph by (rule phrase_nonneg)
  from E cs have nx: "?nx \<le> 4096" "2 ^ m + 2 \<le> ?nx" and ibn: "en_ib_code s < ?nx"
    and tab: "\<forall>key c. en_code_table s key = Some c
                 \<longleftrightarrow> 2 ^ m + 2 \<le> c \<and> c < ?nx \<and> D c = key"
    and wf: "\<forall>c. 2 ^ m + 2 \<le> c \<and> c < ?nx
             \<longrightarrow> 0 \<le> D c \<and> D c < 1048576 \<and> D c div 256 < c"
    and csb: "m + 1 \<le> cs" "cs \<le> 12" "?nx \<le> 2 ^ cs"
    unfolding EI_def by auto
  have key: "enc_key (int m) s x = ?key"
    using m x ib0 ibn nx by (intro enc_key_eq) simp_all
  have k: "enc_k (int m) x = uint x" using m x by (rule enc_k_eq)
  have x256: "uint x < 256" using x pow2_m_bounds(2)[OF m] by simp
  have sh: "js_shl 1 (int cs) = 2 ^ cs" using js_shl_1[of "int cs"] csb(2) by simp
  note f = encode_index_miss[OF miss n4]
  show ib': "en_ib_code ?s' = uint x" using f(3) k by simp
  show nx': "en_next_code ?s' = ?nx + 1" by (rule f(1))
  show cs': "en_cur_code_size ?s' = int (if ?nx \<ge> 2 ^ cs then cs + 1 else cs)"
    using f(2) by (simp add: cs sh)
  have tab': "en_code_table ?s' = (en_code_table s)(?key \<mapsto> ?nx)" using f(4) key by simp
  show "step_codes (int m) s x = [(en_ib_code s, cs)]"
    by (simp add: step_codes_def miss n4 cs)
  have nokey: "\<not> (2 ^ m + 2 \<le> c \<and> c < ?nx \<and> D c = ?key)" for c
    using tab miss unfolding key by (metis option.distinct(1))
  have csn: "\<exists>cs'. en_cur_code_size ?s' = int cs' \<and> m + 1 \<le> cs' \<and> cs' \<le> 12 \<and> en_next_code ?s' \<le> 2 ^ cs'"
  proof (cases "?nx \<ge> 2 ^ cs")
    case True
    with csb(3) have eq: "?nx = 2 ^ cs" by simp
    have "cs \<noteq> 12" using eq n4 by auto
    with csb(2) have "cs + 1 \<le> 12" by simp
    moreover have "?nx + 1 \<le> 2 ^ (cs + 1)" unfolding eq by simp
    ultimately show ?thesis using True csb(1) cs' nx' by (intro exI[of _ "cs + 1"]) simp
  next
    case False
    then show ?thesis using csb cs' nx' by (intro exI[of _ cs]) simp
  qed
  show "EI m (D(?nx := ?key)) ?s'"
    unfolding EI_def
  proof (intro conjI allI impI)
    show "2 ^ m + 2 \<le> en_next_code ?s'" using nx(2) nx' by simp
    show "en_next_code ?s' \<le> 4096" using nx(1) n4 nx' by simp
    show "\<exists>cs. en_cur_code_size ?s' = int cs \<and> m + 1 \<le> cs \<and> cs \<le> 12 \<and> en_next_code ?s' \<le> 2 ^ cs"
      by (rule csn)
    show "en_code_table ?s' key' = Some c
            \<longleftrightarrow> 2 ^ m + 2 \<le> c \<and> c < en_next_code ?s' \<and> (D(?nx := ?key)) c = key'" for key' c
    proof (cases "c = ?nx")
      case True
      then show ?thesis using nx(2) tab nx' tab' by (auto split: if_splits)
    next
      case False
      show ?thesis
      proof (cases "key' = ?key")
        case True
        then show ?thesis using False nokey[of c] tab' nx' by auto
      next
        case k: False
        then show ?thesis using False tab tab' nx' by auto
      qed
    qed
    show "0 \<le> (D(?nx := ?key)) c" if "2 ^ m + 2 \<le> c \<and> c < en_next_code ?s'" for c
      using that wf ib0 nx' by (cases "c = ?nx") auto
    show "(D(?nx := ?key)) c < 1048576" if "2 ^ m + 2 \<le> c \<and> c < en_next_code ?s'" for c
      using that wf ibn nx(1) x256 nx' by (cases "c = ?nx") auto
    show "(D(?nx := ?key)) c div 256 < c" if "2 ^ m + 2 \<le> c \<and> c < en_next_code ?s'" for c
      using that wf ibn x256 nx' by (cases "c = ?nx") auto
    show "en_ib_code ?s' < en_next_code ?s'"
      using ib' nx' x nx(2) by simp
  qed
qed

lemma EI_clear:
  assumes m: "2 \<le> m" "m \<le> 8" and E: "EI m D s" and ph: "phrase m D (en_ib_code s) w"
    and x: "uint x < 2 ^ m"
    and miss: "en_code_table s (enc_key (int m) s x) = None"
    and n4: "en_next_code s = 4096"
  shows "EI m D (encode_index (int m) s x)"
    and "en_ib_code (encode_index (int m) s x) = uint x"
    and "en_next_code (encode_index (int m) s x) = 2 ^ m + 2"
    and "en_cur_code_size (encode_index (int m) s x) = int (m + 1)"
    and "en_cur_code_size s = 12"
    and "step_codes (int m) s x = [(en_ib_code s, 12), (2 ^ m, 12)]"
proof -
  let ?s' = "encode_index (int m) s x"
  have cc: "js_shl 1 (int m) = 2 ^ m" using js_shl_1[of "int m"] m by simp
  have k: "enc_k (int m) x = uint x" using m x by (rule enc_k_eq)
  note f = encode_index_clear[OF miss n4]
  show ib': "en_ib_code ?s' = uint x" using f(3) k by simp
  show nx': "en_next_code ?s' = 2 ^ m + 2" using f(1) cc by simp
  show cs': "en_cur_code_size ?s' = int (m + 1)" using f(2) by simp
  from E obtain cs where cs: "en_cur_code_size s = int cs" "cs \<le> 12" "en_next_code s \<le> 2 ^ cs"
    unfolding EI_def by blast
  have "cs = 12"
  proof (rule ccontr)
    assume "cs \<noteq> 12"
    with cs(2) have "cs \<le> 11" by simp
    then have "(2::int) ^ cs \<le> 2 ^ 11" by (rule pow2_le_mono)
    with cs(3) n4 show False by simp
  qed
  with cs(1) show c12: "en_cur_code_size s = 12" by simp
  show "step_codes (int m) s x = [(en_ib_code s, 12), (2 ^ m, 12)]"
    by (simp add: step_codes_def miss n4 c12 cc)
  note b = pow2_m_bounds[OF m]
  show "EI m D ?s'"
    unfolding EI_def nx' ib' cs' f(4)
    using b x m by (auto intro!: exI[of _ "m + 1"])
qed

lemma Rel_cong: "Rel m D s d h \<Longrightarrow> same_dict d d' \<Longrightarrow> Rel m D s d' h"
  unfolding Rel_def same_dict_def by simp

lemma OUTI_cong: "OUTI idx d o' \<Longrightarrow> same_dict d d' \<Longrightarrow> OUTI idx d' o'"
  unfolding OUTI_def same_dict_def by simp

lemma OUTI_step:
  assumes O: "OUTI idx d o'" and W: "OUTW (d_output d) o' w (d_output d')"
    and op: "d_op d' = int (o' + length w)"
    and w: "map uint (drop o' idx) = w @ r"
  shows "OUTI idx d' (o' + length w)"
  unfolding OUTI_def
proof (intro conjI allI impI)
  from O have o: "length (d_output d) = length idx" "\<forall>i < o'. d_output d ! i = idx ! i"
    unfolding OUTI_def by simp_all
  from W have ww: "length (d_output d') = length (d_output d)"
    "\<forall>i < o'. d_output d' ! i = d_output d ! i"
    "\<forall>j < length w. d_output d' ! (o' + j) = word_of_int (w ! j)"
    unfolding OUTW_def by simp_all
  show "d_op d' = int (o' + length w)" by (rule op)
  show "length (d_output d') = length idx" using ww(1) o(1) by simp
  show "d_output d' ! i = idx ! i" if "i < o' + length w" for i
  proof (cases "i < o'")
    case True
    with ww(2) o(2) show ?thesis by simp
  next
    case False
    define j where "j = i - o'"
    have j: "j < length w" "i = o' + j" using that False by (simp_all add: j_def)
    have "length (map uint (drop o' idx)) = length w + length r" using w by simp
    then have il: "o' + j < length idx" using j(1) by simp
    have "w ! j = (w @ r) ! j" using j(1) by (simp add: nth_append)
    also have "\<dots> = map uint (drop o' idx) ! j" using w by simp
    also have "\<dots> = uint (idx ! (o' + j))" using il by simp
    finally have "word_of_int (w ! j) = idx ! (o' + j)" by simp
    with ww(3) j show ?thesis by simp
  qed
qed

lemma dec_consume:
  assumes F: "Framed buf p0 ds" and m: "2 \<le> m" "m \<le> 8"
    and E: "EI m D s" and ph: "phrase m D (en_ib_code s) w"
    and R: "Rel m D s d (hd w)"
    and cs: "en_cur_code_size s = int cs"
    and S: "SRC p0 ds d (en_ib_code s + 2 ^ cs * R') nb" and nb: "cs \<le> nb"
    and O: "OUTI idx d o'" and w: "map uint (drop o' idx) = w @ r"
  shows "\<exists>d3. decode_loop buf (int m) (int (length idx)) d
                = decode_loop buf (int m) (int (length idx)) d3
          \<and> SRC p0 ds d3 R' (nb - cs)
          \<and> OUTI idx d3 (o' + length w)
          \<and> d_prev_code d3 = Some (en_ib_code s)
          \<and> d_next_code d3 = en_next_code s
          \<and> (\<forall>c. 2 ^ m + 2 \<le> c \<and> c < en_next_code s \<longrightarrow> d_code_table d3 c = D c)
          \<and> d_cur_code_size d3
              = int (if d_prev_code d \<noteq> None \<and> en_next_code s \<ge> 2 ^ cs \<and> cs < 12 then cs + 1 else cs)
          \<and> d_code_mask d3
              = 2 ^ (if d_prev_code d \<noteq> None \<and> en_next_code s \<ge> 2 ^ cs \<and> cs < 12 then cs + 1 else cs) - 1"
proof -
  let ?ib = "en_ib_code s"
  let ?nx = "en_next_code s"
  have ib0: "0 \<le> ?ib" using ph by (rule phrase_nonneg)
  from E cs have nx: "?nx \<le> 4096" and ibn: "?ib < ?nx"
    and csb: "m + 1 \<le> cs" "cs \<le> 12" "?nx \<le> 2 ^ cs"
    unfolding EI_def by auto
  have ibc: "?ib < 2 ^ cs" using ibn csb(3) by simp
  from R cs have dcs: "d_cur_code_size d = int cs" and dm: "d_code_mask d = 2 ^ cs - 1"
    unfolding Rel_def by auto
  from cut_code[OF F S nb ib0 ibc csb(2) dcs dm, of "int m" "int (length idx)"]
  obtain d2 where d2: "decode_loop buf (int m) (int (length idx)) d =
            (case decode_code (int m) (int (length idx)) d2 ?ib of
               None \<Rightarrow> None
             | Some (Inl r) \<Rightarrow> Some r
             | Some (Inr d3) \<Rightarrow> decode_loop buf (int m) (int (length idx)) d3)"
    and S2: "SRC p0 ds d2 R' (nb - cs)" and sd: "same_dict d d2"
    by blast
  have R2: "Rel m D s d2 (hd w)" using R sd by (rule Rel_cong)
  have O2: "OUTI idx d2 o'" using O sd by (rule OUTI_cong)
  from R2 have ag: "\<forall>c. 2 ^ m + 2 \<le> c \<and> c < d_next_code d2 \<longrightarrow> d_code_table d2 c = D c"
    and N0: "2 ^ m + 2 \<le> d_next_code d2"
    and prev: "(d_prev_code d2 = None \<and> d_next_code d2 = ?nx)
             \<or> (\<exists>pc. d_prev_code d2 = Some pc \<and> d_next_code d2 + 1 = ?nx
                    \<and> D (d_next_code d2) = pc * 256 + hd w \<and> 0 \<le> pc \<and> pc < 4096)"
    and dcs2: "d_cur_code_size d2 = int cs" and dm2: "d_code_mask d2 = 2 ^ cs - 1"
    unfolding Rel_def using cs by auto
  from O2 have op2: "d_op d2 = int o'" and len2: "length (d_output d2) = length idx"
    unfolding OUTI_def by simp_all
  have "length (map uint (drop o' idx)) = length w + length r" using w by simp
  then have lw: "o' + length w \<le> length (d_output d2)"
    using phrase_nonempty[OF ph] len2 by (cases w) auto
  from decode_code_phrase[OF m ph ibn nx ag N0 prev op2 lw len2 dcs2 dm2 csb(2)]
  obtain d3 where d3: "decode_code (int m) (int (length idx)) d2 ?ib = Some (Inr d3)"
    and ss: "same_src d2 d3" and pv: "d_prev_code d3 = Some ?ib"
    and op3: "d_op d3 = int (o' + length w)"
    and ow: "OUTW (d_output d2) o' w (d_output d3)"
    and nx3: "d_next_code d3 = ?nx"
    and ag3: "\<forall>c. 2 ^ m + 2 \<le> c \<and> c < ?nx \<longrightarrow> d_code_table d3 c = D c"
    and cs3: "d_cur_code_size d3 = int (if d_prev_code d2 \<noteq> None \<and> ?nx \<ge> 2 ^ cs \<and> cs < 12 then cs + 1 else cs)"
    and m3: "d_code_mask d3 = 2 ^ (if d_prev_code d2 \<noteq> None \<and> ?nx \<ge> 2 ^ cs \<and> cs < 12 then cs + 1 else cs) - 1"
    by blast
  have pe: "d_prev_code d2 = d_prev_code d" using sd by (simp add: same_dict_def)
  have l: "decode_loop buf (int m) (int (length idx)) d
                = decode_loop buf (int m) (int (length idx)) d3"
    unfolding d2 d3 by simp
  have S3: "SRC p0 ds d3 R' (nb - cs)" using S2 ss by (rule SRC_cong)
  have O3: "OUTI idx d3 (o' + length w)" using O2 ow op3 w by (rule OUTI_step)
  from l S3 O3 pv nx3 ag3 cs3 m3 show ?thesis unfolding pe by blast
qed

lemma drop_tail:
  assumes "map uint (drop o' idx) = w @ r"
  shows "map uint (drop (o' + length w) idx) = r"
proof -
  have "map uint (drop (length w) (drop o' idx)) = drop (length w) (map uint (drop o' idx))"
    by (simp add: drop_map)
  also have "\<dots> = r" unfolding assms by simp
  finally show ?thesis by (simp add: add.commute)
qed

lemma decode_main:
  assumes F: "Framed buf p0 ds" and m: "2 \<le> m" "m \<le> 8"
  shows "\<lbrakk>\<forall>x \<in> set xs. uint x < 2 ^ m; EI m D s; phrase m D (en_ib_code s) w;
          Rel m D s d (hd w);
          SRC p0 ds d (pack (enc_codes (int m) s xs)) nb; nbits (enc_codes (int m) s xs) \<le> nb;
          OUTI idx d o'; map uint (drop o' idx) = w @ map uint xs\<rbrakk>
         \<Longrightarrow> decode_loop buf (int m) (int (length idx)) d = Some (idx, Some (int (length idx)))"
proof (induction xs arbitrary: s d w D o' nb)
  case Nil
  note E = Nil.prems(2) and ph = Nil.prems(3) and R = Nil.prems(4) and S = Nil.prems(5)
    and nb = Nil.prems(6) and O = Nil.prems(7) and w = Nil.prems(8)
  have cc: "js_shl 1 (int m) = 2 ^ m" using js_shl_1[of "int m"] m by simp
  from E obtain cs where cs: "en_cur_code_size s = int cs" "m + 1 \<le> cs" "cs \<le> 12"
    unfolding EI_def by blast
  have pk: "pack (enc_codes (int m) s []) = en_ib_code s + 2 ^ cs * (2 ^ m + 1)"
    by (simp add: cs cc)
  have nbv: "nbits (enc_codes (int m) s []) = cs + cs" by (simp add: cs)
  have S': "SRC p0 ds d (en_ib_code s + 2 ^ cs * (2 ^ m + 1)) nb" using S unfolding pk .
  have nb': "cs \<le> nb" using nb nbv by simp
  have w': "map uint (drop o' idx) = w @ []" using w by simp
  from dec_consume[OF F m E ph R cs(1) S' nb' O w']
  obtain d3 where l: "decode_loop buf (int m) (int (length idx)) d
                = decode_loop buf (int m) (int (length idx)) d3"
    and S3: "SRC p0 ds d3 (2 ^ m + 1) (nb - cs)"
    and O3: "OUTI idx d3 (o' + length w)"
    and cs3: "d_cur_code_size d3
              = int (if d_prev_code d \<noteq> None \<and> en_next_code s \<ge> 2 ^ cs \<and> cs < 12 then cs + 1 else cs)"
    and m3: "d_code_mask d3
              = 2 ^ (if d_prev_code d \<noteq> None \<and> en_next_code s \<ge> 2 ^ cs \<and> cs < 12 then cs + 1 else cs) - 1"
    by blast
  define c3 where "c3 = (if d_prev_code d \<noteq> None \<and> en_next_code s \<ge> 2 ^ cs \<and> cs < 12 then cs + 1 else cs)"
  have c3b: "cs \<le> c3" "c3 \<le> 12" using cs(3) by (simp_all add: c3_def)
  have "(2::int) ^ (m + 1) \<le> 2 ^ c3" using cs(2) c3b(1) by (intro pow2_le_mono) simp
  then have e3: "(2::int) ^ m + 1 < 2 ^ c3" using pow2_m_bounds(3)[OF m] by simp
  have e0: "(0::int) \<le> 2 ^ m + 1" by simp
  have "decode_loop buf (int m) (int (length idx)) d3 = Some (d_output d3, Some (d_op d3))"
    using F S3 _ e0 e3 c3b(2) cs3[folded c3_def] m3[folded c3_def]
    by (rule decode_loop_eoi) (simp add: cc)
  moreover have "length idx - o' = length w"
    using arg_cong[OF w', of length] by simp
  then have fin: "o' + length w = length idx"
    using phrase_nonempty[OF ph] by (cases w) auto
  from O3 have "d_op d3 = int (length idx)" "length (d_output d3) = length idx"
    "\<forall>i < length idx. d_output d3 ! i = idx ! i"
    unfolding OUTI_def fin by simp_all
  then have "d_op d3 = int (length idx)" "d_output d3 = idx"
    by (simp_all add: nth_equalityI)
  ultimately show ?case using l by simp
next
  case (Cons x xs)
  note xs = Cons.prems(1) and E = Cons.prems(2) and ph = Cons.prems(3) and R = Cons.prems(4)
    and S = Cons.prems(5) and nb = Cons.prems(6) and O = Cons.prems(7) and w = Cons.prems(8)
  let ?s' = "encode_index (int m) s x"
  let ?ib = "en_ib_code s"
  let ?nx = "en_next_code s"
  have x: "uint x < 2 ^ m" and xs': "\<forall>x \<in> set xs. uint x < 2 ^ m" using xs by simp_all
  have cc: "js_shl 1 (int m) = 2 ^ m" using js_shl_1[of "int m"] m by simp
  have ib0: "0 \<le> ?ib" using ph by (rule phrase_nonneg)
  from E obtain cs where cs: "en_cur_code_size s = int cs" "m + 1 \<le> cs" "cs \<le> 12"
    "?nx \<le> 2 ^ cs"
    unfolding EI_def by blast
  from E have nx: "2 ^ m + 2 \<le> ?nx" "?nx \<le> 4096" and ibn: "?ib < ?nx"
    unfolding EI_def by blast+
  have ne: "w \<noteq> []" using ph by (rule phrase_nonempty)
  have w2: "map uint (drop o' idx) = w @ (uint x # map uint xs)" using w by simp
  have tl: "map uint (drop (o' + length w) idx) = [uint x] @ map uint xs"
    using drop_tail[OF w2] by simp
  have phk: "phrase m D' (uint x) [uint x]" for D'
    using x by (intro phrase.lit) simp_all
  show ?case
  proof (cases "en_code_table s (enc_key (int m) s x)")
    case (Some c)
    note h = EI_hit[OF m E ph x Some]
    have R': "Rel m D ?s' d (hd (w @ [uint x]))"
      using R ne unfolding Rel_def h(3) h(4) by simp
    have S': "SRC p0 ds d (pack (enc_codes (int m) ?s' xs)) nb"
      using S by (simp add: h(5))
    have nb': "nbits (enc_codes (int m) ?s' xs) \<le> nb" using nb by (simp add: h(5))
    have w': "map uint (drop o' idx) = (w @ [uint x]) @ map uint xs" using w by simp
    show ?thesis using xs' h(1) h(2) R' S' nb' O w' by (rule Cons.IH)
  next
    case None
    show ?thesis
    proof (cases "?nx = 4096")
      case False
      note h = EI_miss[OF m E ph x None False cs(1)]
      let ?D' = "D(?nx := ?ib * 256 + uint x)"
      have pk: "pack (enc_codes (int m) s (x # xs)) = ?ib + 2 ^ cs * pack (enc_codes (int m) ?s' xs)"
        by (simp add: h(5))
      have nbv: "nbits (enc_codes (int m) s (x # xs)) = cs + nbits (enc_codes (int m) ?s' xs)"
        by (simp add: h(5))
      have S0: "SRC p0 ds d (?ib + 2 ^ cs * pack (enc_codes (int m) ?s' xs)) nb"
        using S unfolding pk .
      have nb0: "cs \<le> nb" using nb nbv by simp
      from dec_consume[OF F m E ph R cs(1) S0 nb0 O w2]
      obtain d3 where l: "decode_loop buf (int m) (int (length idx)) d
                = decode_loop buf (int m) (int (length idx)) d3"
        and S3: "SRC p0 ds d3 (pack (enc_codes (int m) ?s' xs)) (nb - cs)"
        and O3: "OUTI idx d3 (o' + length w)"
        and pv3: "d_prev_code d3 = Some ?ib"
        and nx3: "d_next_code d3 = ?nx"
        and ag3: "\<forall>c. 2 ^ m + 2 \<le> c \<and> c < ?nx \<longrightarrow> d_code_table d3 c = D c"
        and cs3: "d_cur_code_size d3
              = int (if d_prev_code d \<noteq> None \<and> ?nx \<ge> 2 ^ cs \<and> cs < 12 then cs + 1 else cs)"
        and m3: "d_code_mask d3
              = 2 ^ (if d_prev_code d \<noteq> None \<and> ?nx \<ge> 2 ^ cs \<and> cs < 12 then cs + 1 else cs) - 1"
        by blast
      have bump: "(d_prev_code d \<noteq> None \<and> ?nx \<ge> 2 ^ cs \<and> cs < 12) = (?nx \<ge> 2 ^ cs)"
      proof (cases "?nx \<ge> 2 ^ cs")
        case True
        with cs(4) have eq: "?nx = 2 ^ cs" by simp
        have "cs \<noteq> 12" using eq False by auto
        with cs(3) have c12: "cs < 12" by simp
        have "d_prev_code d \<noteq> None"
        proof
          assume "d_prev_code d = None"
          with R cs(1) have "?nx = 2 ^ m + 2" "cs = m + 1" unfolding Rel_def by auto
          with eq pow2_m_bounds(3)[OF m] show False by simp
        qed
        with True c12 show ?thesis by simp
      next
        case False
        then show ?thesis by simp
      qed
      have R': "Rel m ?D' ?s' d3 (hd [uint x])"
        unfolding Rel_def h(3) h(4)
        using cs3 m3 ag3 nx3 pv3 nx ib0 ibn unfolding bump by auto
      have E': "EI m ?D' ?s'" by (rule h(1))
      have ph': "phrase m ?D' (en_ib_code ?s') [uint x]" unfolding h(2) by (rule phk)
      have nb': "nbits (enc_codes (int m) ?s' xs) \<le> nb - cs" using nb nbv by simp
      have "decode_loop buf (int m) (int (length idx)) d3 = Some (idx, Some (int (length idx)))"
        using xs' E' ph' R' S3 nb' O3 tl by (rule Cons.IH)
      with l show ?thesis by simp
    next
      case True
      note h = EI_clear[OF m E ph x None True]
      have cs12: "cs = 12" using h(5) cs(1) by simp
      have pk: "pack (enc_codes (int m) s (x # xs))
                  = ?ib + 2 ^ 12 * (2 ^ m + 2 ^ 12 * pack (enc_codes (int m) ?s' xs))"
        by (simp add: h(6))
      have nbv: "nbits (enc_codes (int m) s (x # xs)) = 12 + (12 + nbits (enc_codes (int m) ?s' xs))"
        by (simp add: h(6))
      have S0: "SRC p0 ds d (?ib + 2 ^ cs * (2 ^ m + 2 ^ 12 * pack (enc_codes (int m) ?s' xs))) nb"
        using S unfolding pk cs12 .
      have nb0: "cs \<le> nb" using nb nbv cs12 by simp
      from dec_consume[OF F m E ph R cs(1) S0 nb0 O w2]
      obtain d3 where l: "decode_loop buf (int m) (int (length idx)) d
                = decode_loop buf (int m) (int (length idx)) d3"
        and S3: "SRC p0 ds d3 (2 ^ m + 2 ^ 12 * pack (enc_codes (int m) ?s' xs)) (nb - cs)"
        and O3: "OUTI idx d3 (o' + length w)"
        and cs3: "d_cur_code_size d3
              = int (if d_prev_code d \<noteq> None \<and> ?nx \<ge> 2 ^ cs \<and> cs < 12 then cs + 1 else cs)"
        and m3: "d_code_mask d3
              = 2 ^ (if d_prev_code d \<noteq> None \<and> ?nx \<ge> 2 ^ cs \<and> cs < 12 then cs + 1 else cs) - 1"
        by blast
      have cs3': "d_cur_code_size d3 = int 12" and m3': "d_code_mask d3 = 2 ^ 12 - 1"
        using cs3 m3 by (simp_all add: cs12)
      have c0: "(0::int) \<le> 2 ^ m" by simp
      have "(2::int) ^ m \<le> 256" by (rule pow2_m_bounds(2)[OF m])
      then have c1: "(2::int) ^ m < 2 ^ 12" by simp
      have nb1: "12 \<le> nb - cs" using nb nbv cs12 by simp
      from cut_code[OF F S3 nb1 c0 c1 _ cs3' m3', of "int m" "int (length idx)"]
      obtain d4 where d4: "decode_loop buf (int m) (int (length idx)) d3 =
            (case decode_code (int m) (int (length idx)) d4 (2 ^ m) of
               None \<Rightarrow> None
             | Some (Inl r) \<Rightarrow> Some r
             | Some (Inr d5) \<Rightarrow> decode_loop buf (int m) (int (length idx)) d5)"
        and S4: "SRC p0 ds d4 (pack (enc_codes (int m) ?s' xs)) (nb - cs - 12)"
        and sd: "same_dict d3 d4"
        by auto
      define d5 where "d5 = d4\<lparr>d_next_code := 2 ^ m + 1 + 1,
                          d_cur_code_size := int m + 1,
                          d_code_mask := js_shl 1 (int m + 1) - 1,
                          d_prev_code := None\<rparr>"
      have dc: "decode_code (int m) (int (length idx)) d4 (2 ^ m) = Some (Inr d5)"
        unfolding decode_code_def Let_def d5_def by (simp add: cc)
      have l2: "decode_loop buf (int m) (int (length idx)) d3
                  = decode_loop buf (int m) (int (length idx)) d5"
        unfolding d4 dc by simp
      have S5: "SRC p0 ds d5 (pack (enc_codes (int m) ?s' xs)) (nb - cs - 12)"
        using S4 by (rule SRC_cong) (simp add: same_src_def d5_def)
      have O4: "OUTI idx d4 (o' + length w)" using O3 sd by (rule OUTI_cong)
      have O5: "OUTI idx d5 (o' + length w)" using O4 unfolding OUTI_def d5_def by simp
      have sh: "js_shl 1 (int m + 1) = 2 ^ (m + 1)"
        using js_shl_1[of "int m + 1"] m by (simp add: nat_add_distrib)
      have ex: "\<exists>cs. int (m + 1) = int cs \<and> js_shl 1 (int m + 1) - 1 = 2 ^ cs - 1"
        by (rule exI[of _ "m + 1"]) (simp add: sh)
      have R': "Rel m D ?s' d5 (hd [uint x])"
        unfolding Rel_def h(3) h(4) d5_def using ex by simp
      have ph': "phrase m D (en_ib_code ?s') [uint x]" unfolding h(2) by (rule phk)
      have nb': "nbits (enc_codes (int m) ?s' xs) \<le> nb - cs - 12" using nb nbv cs12 by simp
      have "decode_loop buf (int m) (int (length idx)) d5 = Some (idx, Some (int (length idx)))"
        using xs' h(1) ph' R' S5 nb' O5 tl by (rule Cons.IH)
      with l l2 show ?thesis by simp
    qed
  qed
qed

lemma enc_tail_Cons: "enc_tail m s (x # xs) = enc_tail m (encode_index m s x) xs"
  by (simp add: enc_tail_def)

lemma PKS_cong:
  assumes "PKS B p0 s V n" "pk_buf s' = pk_buf s" "pk_p s' = pk_p s"
    "pk_cur_subblock s' = pk_cur_subblock s" "pk_cur s' = pk_cur s" "pk_cur_shift s' = pk_cur_shift s"
  shows "PKS B p0 s' V n"
  using assms unfolding PKS_def LAY_def ACC_def pk_val_def by simp

lemma encode_index_pk_miss:
  assumes "en_code_table s (enc_key m s x) = None" "en_next_code s \<noteq> 4096"
  shows "pk_buf (encode_index m s x) = pk_buf (emit_code (en_cur_code_size s) (en_ib_code s) s)"
    and "pk_p (encode_index m s x) = pk_p (emit_code (en_cur_code_size s) (en_ib_code s) s)"
    and "pk_cur_subblock (encode_index m s x)
           = pk_cur_subblock (emit_code (en_cur_code_size s) (en_ib_code s) s)"
    and "pk_cur (encode_index m s x) = pk_cur (emit_code (en_cur_code_size s) (en_ib_code s) s)"
    and "pk_cur_shift (encode_index m s x)
           = pk_cur_shift (emit_code (en_cur_code_size s) (en_ib_code s) s)"
  using assms by (simp_all add: encode_index_def Let_def enc_key_def enc_k_def)

lemma encode_index_pk_clear:
  assumes "en_code_table s (enc_key m s x) = None" "en_next_code s = 4096"
  shows "pk_buf (encode_index m s x)
           = pk_buf (emit_code (en_cur_code_size s) (js_shl 1 m)
                       (emit_code (en_cur_code_size s) (en_ib_code s) s))"
    and "pk_p (encode_index m s x)
           = pk_p (emit_code (en_cur_code_size s) (js_shl 1 m)
                       (emit_code (en_cur_code_size s) (en_ib_code s) s))"
    and "pk_cur_subblock (encode_index m s x)
           = pk_cur_subblock (emit_code (en_cur_code_size s) (js_shl 1 m)
                       (emit_code (en_cur_code_size s) (en_ib_code s) s))"
    and "pk_cur (encode_index m s x)
           = pk_cur (emit_code (en_cur_code_size s) (js_shl 1 m)
                       (emit_code (en_cur_code_size s) (en_ib_code s) s))"
    and "pk_cur_shift (encode_index m s x)
           = pk_cur_shift (emit_code (en_cur_code_size s) (js_shl 1 m)
                       (emit_code (en_cur_code_size s) (en_ib_code s) s))"
  using assms by (simp_all add: encode_index_def Let_def enc_key_def enc_k_def)

lemma pk_p_encode_index: "pk_p s \<le> pk_p (encode_index m s x)"
proof (cases "en_code_table s (enc_key m s x)")
  case (Some c)
  then show ?thesis by (simp add: encode_index_hit)
next
  case None
  show ?thesis
  proof (cases "en_next_code s = 4096")
    case True
    have "pk_p s \<le> pk_p (emit_code (en_cur_code_size s) (en_ib_code s) s)"
      by (rule pk_p_emit_code)
    also have "\<dots> \<le> pk_p (emit_code (en_cur_code_size s) (js_shl 1 m)
                       (emit_code (en_cur_code_size s) (en_ib_code s) s))"
      by (rule pk_p_emit_code)
    finally show ?thesis unfolding encode_index_pk_clear(2)[OF None True] .
  next
    case False
    show ?thesis unfolding encode_index_pk_miss(2)[OF None False] by (rule pk_p_emit_code)
  qed
qed

lemma pk_p_foldl: "pk_p s \<le> pk_p (foldl (encode_index m) s xs)"
proof (induction xs arbitrary: s)
  case Nil
  then show ?case by simp
next
  case (Cons x xs)
  have "pk_p s \<le> pk_p (encode_index m s x)" by (rule pk_p_encode_index)
  also have "\<dots> \<le> pk_p (foldl (encode_index m) (encode_index m s x) xs)" by (rule Cons.IH)
  finally show ?case by simp
qed

lemma pk_p_enc_tail: "pk_p s \<le> pk_p (enc_tail m s xs)"
proof -
  let ?s2 = "foldl (encode_index m) s xs"
  let ?s3 = "emit_code (en_cur_code_size ?s2) (en_ib_code ?s2) ?s2"
  have "pk_p s \<le> pk_p ?s2" by (rule pk_p_foldl)
  also have "\<dots> \<le> pk_p ?s3" by (rule pk_p_emit_code)
  also have "\<dots> \<le> pk_p (emit_code (en_cur_code_size ?s3) (js_shl 1 m + 1) ?s3)"
    by (rule pk_p_emit_code)
  finally show ?thesis by (simp add: enc_tail_def Let_def)
qed

lemma enc_tail_PKS:
  assumes m: "2 \<le> m" "m \<le> 8"
  shows "\<lbrakk>\<forall>x \<in> set xs. uint x < 2 ^ m; EI m D s; phrase m D (en_ib_code s) w;
          PKS B p0 s V n; pk_p (enc_tail (int m) s xs) \<le> int (length B)\<rbrakk>
         \<Longrightarrow> PKS B p0 (enc_tail (int m) s xs)
               (V + 2 ^ n * pack (enc_codes (int m) s xs))
               (n + nbits (enc_codes (int m) s xs))"
proof (induction xs arbitrary: s D w V n)
  case Nil
  note E = Nil.prems(2) and ph = Nil.prems(3) and P = Nil.prems(4) and cap = Nil.prems(5)
  have cc: "js_shl 1 (int m) = 2 ^ m" using js_shl_1[of "int m"] m by simp
  have ib0: "0 \<le> en_ib_code s" using ph by (rule phrase_nonneg)
  from E obtain cs where cs: "en_cur_code_size s = int cs" "m + 1 \<le> cs" "cs \<le> 12"
    "en_next_code s \<le> 2 ^ cs"
    unfolding EI_def by blast
  from E have ibn: "en_ib_code s < en_next_code s" unfolding EI_def by blast
  have ibc: "en_ib_code s < 2 ^ cs" using ibn cs(4) by simp
  let ?s3 = "emit_code (int cs) (en_ib_code s) s"
  let ?s4 = "emit_code (int cs) (2 ^ m + 1) ?s3"
  have e: "enc_tail (int m) s [] = ?s4" by (simp add: enc_tail_def Let_def cs(1) cc)
  have cap4: "pk_p ?s4 \<le> int (length B)" using cap unfolding e .
  have cap3: "pk_p ?s3 \<le> int (length B)" using pk_p_emit_code[of ?s3 "int cs" "2 ^ m + 1"] cap4 by simp
  have P3: "PKS B p0 ?s3 (V + 2 ^ n * en_ib_code s) (n + cs)"
    using P ib0 ibc cs(3) cap3 by (rule emit_code_PKS)
  have "(2::int) ^ (m + 1) \<le> 2 ^ cs" using cs(2) by (rule pow2_le_mono)
  then have e3: "(2::int) ^ m + 1 < 2 ^ cs" using pow2_m_bounds(3)[OF m] by simp
  have e0: "(0::int) \<le> 2 ^ m + 1" by simp
  have P4: "PKS B p0 ?s4 (V + 2 ^ n * en_ib_code s + 2 ^ (n + cs) * (2 ^ m + 1)) (n + cs + cs)"
    using P3 e0 e3 cs(3) cap4 by (rule emit_code_PKS)
  have vq: "V + 2 ^ n * en_ib_code s + 2 ^ (n + cs) * (2 ^ m + 1)
          = V + 2 ^ n * pack (enc_codes (int m) s [])"
    by (simp add: cs(1) cc power_add algebra_simps)
  have nq: "n + cs + cs = n + nbits (enc_codes (int m) s [])" by (simp add: cs(1))
  show ?case unfolding e vq[symmetric] nq[symmetric] by (rule P4)
next
  case (Cons x xs)
  note xs = Cons.prems(1) and E = Cons.prems(2) and ph = Cons.prems(3) and P = Cons.prems(4)
    and cap = Cons.prems(5)
  let ?s' = "encode_index (int m) s x"
  have x: "uint x < 2 ^ m" and xs': "\<forall>x \<in> set xs. uint x < 2 ^ m" using xs by simp_all
  have cc: "js_shl 1 (int m) = 2 ^ m" using js_shl_1[of "int m"] m by simp
  have ib0: "0 \<le> en_ib_code s" using ph by (rule phrase_nonneg)
  from E obtain cs where cs: "en_cur_code_size s = int cs" "m + 1 \<le> cs" "cs \<le> 12"
    "en_next_code s \<le> 2 ^ cs"
    unfolding EI_def by blast
  from E have ibn: "en_ib_code s < en_next_code s" unfolding EI_def by blast
  have ibc: "en_ib_code s < 2 ^ cs" using ibn cs(4) by simp
  have cap': "pk_p (enc_tail (int m) ?s' xs) \<le> int (length B)"
    using cap by (simp add: enc_tail_Cons)
  have caps: "pk_p ?s' \<le> int (length B)"
    using pk_p_enc_tail[of ?s' "int m" xs] cap' by simp
  have phk: "phrase m D' (uint x) [uint x]" for D'
    using x by (intro phrase.lit) simp_all
  let ?s3 = "emit_code (int cs) (en_ib_code s) s"
  show ?case
  proof (cases "en_code_table s (enc_key (int m) s x)")
    case (Some c)
    note h = EI_hit[OF m E ph x Some]
    have P': "PKS B p0 ?s' V n"
      using P by (rule PKS_cong) (simp_all add: encode_index_hit[OF Some])
    from Cons.IH[OF xs' h(1) h(2) P' cap']
    show ?thesis by (simp add: enc_tail_Cons h(5))
  next
    case None
    show ?thesis
    proof (cases "en_next_code s = 4096")
      case False
      note h = EI_miss[OF m E ph x None False cs(1)]
      note f = encode_index_pk_miss[OF None False, unfolded cs(1)]
      have cap3: "pk_p ?s3 \<le> int (length B)" using caps unfolding f(2) .
      have P3: "PKS B p0 ?s3 (V + 2 ^ n * en_ib_code s) (n + cs)"
        using P ib0 ibc cs(3) cap3 by (rule emit_code_PKS)
      have P': "PKS B p0 ?s' (V + 2 ^ n * en_ib_code s) (n + cs)"
        using P3 f by (rule PKS_cong)
      have ph': "phrase m (D(en_next_code s := en_ib_code s * 256 + uint x)) (en_ib_code ?s') [uint x]"
        unfolding h(2) by (rule phk)
      from Cons.IH[OF xs' h(1) ph' P' cap']
      show ?thesis by (simp add: enc_tail_Cons h(5) power_add algebra_simps)
    next
      case True
      note h = EI_clear[OF m E ph x None True]
      have cs12: "cs = 12" using h(5) cs(1) by simp
      note f = encode_index_pk_clear[OF None True, unfolded cs(1) cc]
      let ?s4 = "emit_code (int cs) (2 ^ m) ?s3"
      have cap4: "pk_p ?s4 \<le> int (length B)" using caps unfolding f(2) .
      have cap3: "pk_p ?s3 \<le> int (length B)"
        using pk_p_emit_code[of ?s3 "int cs" "2 ^ m"] cap4 by simp
      have P3: "PKS B p0 ?s3 (V + 2 ^ n * en_ib_code s) (n + cs)"
        using P ib0 ibc cs(3) cap3 by (rule emit_code_PKS)
      have "(2::int) ^ m \<le> 256" by (rule pow2_m_bounds(2)[OF m])
      then have c1: "(2::int) ^ m < 2 ^ cs" unfolding cs12 by simp
      have c0: "(0::int) \<le> 2 ^ m" by simp
      have P4: "PKS B p0 ?s4 (V + 2 ^ n * en_ib_code s + 2 ^ (n + cs) * 2 ^ m) (n + cs + cs)"
        using P3 c0 c1 cs(3) cap4 by (rule emit_code_PKS)
      have P': "PKS B p0 ?s' (V + 2 ^ n * en_ib_code s + 2 ^ (n + cs) * 2 ^ m) (n + cs + cs)"
        using P4 f by (rule PKS_cong)
      have ph': "phrase m D (en_ib_code ?s') [uint x]" unfolding h(2) by (rule phk)
      from Cons.IH[OF xs' h(1) ph' P' cap']
      show ?thesis by (simp add: enc_tail_Cons h(6) cs12 power_add algebra_simps)
    qed
  qed
qed

lemma pk_p_finish: "pk_p s \<le> snd (finish_subblocks s)"
  by (simp add: finish_subblocks_def)

lemma LZW_layout:
  assumes m: "2 \<le> m" "m \<le> 8" and ne: "idx \<noteq> []"
    and xs: "\<forall>x \<in> set idx. uint x < 2 ^ m"
    and fit: "snd (GifWriterOutputLZWCodeStream buf (int p0) (int m) idx) \<le> int (length buf)"
  shows "\<exists>ds s1. Framed (fst (GifWriterOutputLZWCodeStream buf (int p0) (int m) idx)) p0 ds
          \<and> p0 < length buf
          \<and> length (fst (GifWriterOutputLZWCodeStream buf (int p0) (int m) idx)) = length buf
          \<and> uint (fst (GifWriterOutputLZWCodeStream buf (int p0) (int m) idx) ! p0) = int m
          \<and> bytes_val ds = 2 ^ m + 2 ^ (m + 1) * pack (enc_codes (int m) s1 (tl idx))
          \<and> m + 1 + nbits (enc_codes (int m) s1 (tl idx)) \<le> 8 * length ds
          \<and> EI m (\<lambda>_. 0) s1 \<and> en_ib_code s1 = uint (hd idx)
          \<and> en_next_code s1 = 2 ^ m + 2 \<and> en_cur_code_size s1 = int (m + 1)"
proof -
  let ?G = "GifWriterOutputLZWCodeStream buf (int p0) (int m) idx"
  define s0 where "s0 = encoder_init buf (int p0) (int m) idx"
  define s1 where "s1 = emit_code (en_cur_code_size s0) (js_shl 1 (int m)) s0"
  define s4 where "s4 = enc_tail (int m) s1 (tl idx)"
  define s5 where "s5 = emit_bytes_to_buffer 1 s4"
  define B where "B = store buf (int p0) (int m)"
  have cc: "js_shl 1 (int m) = 2 ^ m" using js_shl_1[of "int m"] m by simp
  have d1: "drop 1 idx = tl idx" using ne by (cases idx) simp_all
  have G: "?G = finish_subblocks s5"
    unfolding GifWriterOutputLZWCodeStream_def Let_def s5_def s4_def enc_tail_def s1_def s0_def d1
    by simp
  have hx: "uint (hd idx) < 2 ^ m" using xs ne by simp
  have f0: "pk_buf s0 = B" "pk_p s0 = int p0 + 2" "pk_cur_subblock s0 = int p0 + 1"
    "pk_cur s0 = 0" "pk_cur_shift s0 = 0"
    "en_next_code s0 = 2 ^ m + 2" "en_cur_code_size s0 = int (m + 1)"
    "en_ib_code s0 = enc_k (int m) (hd idx)" "en_code_table s0 = Map.empty"
    unfolding s0_def encoder_init_def Let_def B_def enc_k_def using ne
    by (simp_all add: cc to_int32_def)
  have ib: "en_ib_code s0 = uint (hd idx)" unfolding f0(8) using m hx by (rule enc_k_eq)
  have s1e: "s1 = emit_code (int (m + 1)) (2 ^ m) s0" unfolding s1_def f0(7) cc ..
  have f1: "en_next_code s1 = 2 ^ m + 2" "en_cur_code_size s1 = int (m + 1)"
    "en_ib_code s1 = uint (hd idx)" "en_code_table s1 = Map.empty"
    unfolding s1_def using f0 ib by simp_all
  have lenB: "length B = length buf" by (simp add: B_def)
  have c5: "pk_p s5 \<le> int (length B)" using pk_p_finish[of s5] fit unfolding G lenB by simp
  have c4: "pk_p s4 \<le> int (length B)" using pk_p_emit_bytes[of s4 1] c5 unfolding s5_def by simp
  have c1: "pk_p s1 \<le> int (length B)" using pk_p_enc_tail[of s1 "int m" "tl idx"] c4 unfolding s4_def by simp
  have c0: "pk_p s0 \<le> int (length B)"
    using pk_p_emit_code[of s0 "en_cur_code_size s0" "js_shl 1 (int m)"] c1 unfolding s1_def by simp
  then have p2: "p0 + 2 \<le> length B" unfolding f0(2) by simp
  have L0: "LAY B p0 [] s0"
    using f0 p2 by (intro LAY_I) (simp_all add: pos_def)
  have A0: "ACC 0 s0" unfolding ACC_def using f0 by simp
  have P0: "PKS B p0 s0 0 0"
    unfolding PKS_def using L0 A0 f0 by (intro exI[of _ "[]"] exI[of _ 0]) (simp add: pk_val_def)
  have "(2::int) ^ m < 2 ^ (m + 1)" by simp
  moreover have "m + 1 \<le> 12" using m by simp
  moreover have "(0::int) \<le> 2 ^ m" by simp
  ultimately have "PKS B p0 s1 (0 + 2 ^ 0 * 2 ^ m) (0 + (m + 1))"
    using P0 c1 unfolding s1e by (intro emit_code_PKS) simp_all
  then have P1: "PKS B p0 s1 (2 ^ m) (m + 1)" by simp
  note b = pow2_m_bounds[OF m]
  have E1: "EI m (\<lambda>_. 0) s1"
    unfolding EI_def f1 using b hx m by (auto intro!: exI[of _ "m + 1"])
  have ph1: "phrase m (\<lambda>_. 0) (en_ib_code s1) [uint (hd idx)]"
    unfolding f1(3) using hx by (intro phrase.lit) simp_all
  have xs': "\<forall>x \<in> set (tl idx). uint x < 2 ^ m" using xs ne by (cases idx) simp_all
  have P4: "PKS B p0 s4 (2 ^ m + 2 ^ (m + 1) * pack (enc_codes (int m) s1 (tl idx)))
              (m + 1 + nbits (enc_codes (int m) s1 (tl idx)))"
    unfolding s4_def using xs' E1 ph1 P1 c4[unfolded s4_def] by (rule enc_tail_PKS[OF m])
  from flush_LAY[OF P4 c5[unfolded s5_def]]
  obtain ds where ds: "LAY B p0 ds s5"
    "bytes_val ds = 2 ^ m + 2 ^ (m + 1) * pack (enc_codes (int m) s1 (tl idx))"
    "m + 1 + nbits (enc_codes (int m) s1 (tl idx)) \<le> 8 * length ds"
    unfolding s5_def by blast
  have cap: "snd (finish_subblocks s5) \<le> int (length B)" using fit unfolding G lenB .
  note fr = finish_Framed[OF ds(1) cap]
  have pl: "p0 < length buf" using p2 lenB by simp
  have "fst ?G ! p0 = B ! p0" unfolding G using fr(3) by simp
  also have "\<dots> = word_of_int (int m)" unfolding B_def using pl by simp
  finally have "uint (fst ?G ! p0) = uint (word_of_int (int m) :: byte)" by simp
  also have "\<dots> = int m" using m(2) unfolding uint_word_of_int_eq by (simp add: take_bit_eq_mod)
  finally have mb: "uint (fst ?G ! p0) = int m" .
  have "Framed (fst ?G) p0 ds" unfolding G by (rule fr(1))
  moreover have "length (fst ?G) = length buf" unfolding G using fr(2) lenB by simp
  ultimately show ?thesis using pl mb ds(2,3) E1 f1 by blast
qed

lemma LZW_decode_encode:
  assumes k: "1 \<le> k" "k \<le> 8" and ne: "idx \<noteq> []"
    and xs: "\<forall>x \<in> set idx. uint x < 2 ^ k"
    and p: "0 \<le> p"
    and fit: "snd (GifWriterOutputLZWCodeStream buf p (int (max 2 k)) idx) \<le> int (length buf)"
    and out: "length out = length idx"
  shows "readerLZWOutputIndexStream (fst (GifWriterOutputLZWCodeStream buf p (int (max 2 k)) idx))
            p out (int (length idx))
         = Some (idx, Complete)"
proof -
  define m where "m = max 2 k"
  define p0 where "p0 = nat p"
  have m: "2 \<le> m" "m \<le> 8" using k by (simp_all add: m_def)
  have pp: "p = int p0" using p by (simp add: p0_def)
  have km: "(2::int) ^ k \<le> 2 ^ m" by (intro pow2_le_mono) (simp add: m_def)
  have xs2: "\<forall>x \<in> set idx. uint x < 2 ^ m"
  proof
    fix x assume "x \<in> set idx"
    with xs have "uint x < 2 ^ k" by blast
    with km show "uint x < 2 ^ m" by linarith
  qed
  let ?R = "fst (GifWriterOutputLZWCodeStream buf (int p0) (int m) idx)"
  let ?L = "int (length idx)"
  have cc: "js_shl 1 (int m) = 2 ^ m" using js_shl_1[of "int m"] m by simp
  have sh: "js_shl 1 (int m + 1) = 2 ^ (m + 1)"
    using js_shl_1[of "int m + 1"] m by (simp add: nat_add_distrib)
  from LZW_layout[OF m ne xs2 fit[unfolded pp m_def[symmetric]]]
  obtain ds s1 where F: "Framed ?R p0 ds" and pl: "p0 < length buf"
    and len: "length ?R = length buf" and mb: "uint (?R ! p0) = int m"
    and bv: "bytes_val ds = 2 ^ m + 2 ^ (m + 1) * pack (enc_codes (int m) s1 (tl idx))"
    and nb: "m + 1 + nbits (enc_codes (int m) s1 (tl idx)) \<le> 8 * length ds"
    and E1: "EI m (\<lambda>_. 0) s1" and ib1: "en_ib_code s1 = uint (hd idx)"
    and nx1: "en_next_code s1 = 2 ^ m + 2" and cs1: "en_cur_code_size s1 = int (m + 1)"
    by blast
  have dne: "0 < length ds" using nb by (cases ds) simp_all
  from F have Tl: "term_pos p0 (length ds) < length ?R"
    and lens: "\<forall>j. 255 * j < length ds \<longrightarrow>
          uint (?R ! (p0 + 1 + 256 * j)) = min 255 (int (length ds) - 255 * int j)"
    unfolding Framed_def by blast+
  have l0: "load ?R (int p0) = Some (int m)" using pl len mb by (simp add: load_def)
  have "p0 + 1 < term_pos p0 (length ds)" using dne by (simp add: term_pos_def)
  then have p1: "p0 + 1 < length ?R" using Tl by simp
  have "uint (?R ! (p0 + 1)) = min 255 (int (length ds))"
    using lens[rule_format, of 0] dne by simp
  then have l1: "load ?R (int p0 + 1) = Some (min 255 (int (length ds)))"
    using p1 by (simp add: load_def nat_add_distrib)
  define s0 where "s0 = \<lparr>d_p = int p0 + 2,
                    d_subblock_size = load ?R (int p0 + 1),
                    d_cur = 0,
                    d_cur_shift = 0,
                    d_cur_code_size = int m + 1,
                    d_code_mask = js_shl 1 (int m + 1) - 1,
                    d_next_code = js_shl 1 (int m) + 1 + 1,
                    d_prev_code = None,
                    d_op = 0,
                    d_output = out,
                    d_code_table = (\<lambda>_. 0)\<rparr>"
  have rd: "readerLZWOutputIndexStream ?R (int p0) out ?L =
        (case decode_loop ?R (int m) ?L s0 of
               None \<Rightarrow> None
             | Some (out, None) \<Rightarrow> Some (out, LongerThanExpected)
             | Some (out, Some op) \<Rightarrow>
                 Some (out, if op \<noteq> ?L then ShorterThanExpected else Complete))"
    unfolding readerLZWOutputIndexStream_def l0 s0_def Let_def by simp
  have Sn: "SRCn p0 ds s0 0 0"
    unfolding SRCn_def using dne l1 by (simp add: s0_def pos_def)
  have S0: "SRC p0 ds s0 (2 ^ m + 2 ^ (m + 1) * pack (enc_codes (int m) s1 (tl idx))) (8 * length ds)"
    unfolding SRC_def using Sn bv by (intro exI[of _ 0] exI[of _ 0]) (simp add: s0_def)
  have w1: "m + 1 \<le> 8 * length ds" using nb by simp
  have c0: "(0::int) \<le> 2 ^ m" by simp
  have c1: "(2::int) ^ m < 2 ^ (m + 1)" by simp
  have w12: "m + 1 \<le> 12" using m by simp
  have dcs: "d_cur_code_size s0 = int (m + 1)" by (simp add: s0_def)
  have dm: "d_code_mask s0 = 2 ^ (m + 1) - 1" by (simp add: s0_def sh)
  from cut_code[OF F S0 w1 c0 c1 w12 dcs dm, of "int m" ?L]
  obtain d2 where d2: "decode_loop ?R (int m) ?L s0 =
            (case decode_code (int m) ?L d2 (2 ^ m) of
               None \<Rightarrow> None
             | Some (Inl r) \<Rightarrow> Some r
             | Some (Inr d3) \<Rightarrow> decode_loop ?R (int m) ?L d3)"
    and S2: "SRC p0 ds d2 (pack (enc_codes (int m) s1 (tl idx))) (8 * length ds - (m + 1))"
    and sd: "same_dict s0 d2"
    by blast
  define d3 where "d3 = d2\<lparr>d_next_code := 2 ^ m + 1 + 1,
                          d_cur_code_size := int m + 1,
                          d_code_mask := js_shl 1 (int m + 1) - 1,
                          d_prev_code := None\<rparr>"
  have dc: "decode_code (int m) ?L d2 (2 ^ m) = Some (Inr d3)"
    unfolding decode_code_def Let_def d3_def by (simp add: cc)
  have l2: "decode_loop ?R (int m) ?L s0 = decode_loop ?R (int m) ?L d3"
    unfolding d2 dc by simp
  have S3: "SRC p0 ds d3 (pack (enc_codes (int m) s1 (tl idx))) (8 * length ds - (m + 1))"
    using S2 by (rule SRC_cong) (simp add: same_src_def d3_def)
  from sd have o2: "d_op d2 = 0" "d_output d2 = out"
    unfolding same_dict_def s0_def by simp_all
  have O3: "OUTI idx d3 0" unfolding OUTI_def d3_def using o2 out by simp
  have ex: "\<exists>cs. int (m + 1) = int cs \<and> js_shl 1 (int m + 1) - 1 = 2 ^ cs - 1"
    by (rule exI[of _ "m + 1"]) (simp add: sh)
  have R3: "Rel m (\<lambda>_. 0) s1 d3 (hd [uint (hd idx)])"
    unfolding Rel_def nx1 cs1 d3_def using ex by simp
  have xs': "\<forall>x \<in> set (tl idx). uint x < 2 ^ m" using xs2 ne by (cases idx) simp_all
  have hx: "uint (hd idx) < 2 ^ m" using xs2 ne by simp
  have ph1: "phrase m (\<lambda>_. 0) (en_ib_code s1) [uint (hd idx)]"
    unfolding ib1 using hx by (intro phrase.lit) simp_all
  have nb': "nbits (enc_codes (int m) s1 (tl idx)) \<le> 8 * length ds - (m + 1)" using nb by simp
  have w: "map uint (drop 0 idx) = [uint (hd idx)] @ map uint (tl idx)"
    using ne by (cases idx) simp_all
  have "decode_loop ?R (int m) ?L d3 = Some (idx, Some ?L)"
    using xs' E1 ph1 R3 S3 nb' O3 w by (rule decode_main[OF F m])
  then have "readerLZWOutputIndexStream ?R (int p0) out ?L = Some (idx, Complete)"
    unfolding rd l2 by simp
  then show ?thesis unfolding pp m_def .
qed

section \<open>The claims\<close>

subsection \<open>C1: the decoder inverts the encoder\<close>

text \<open>
  Claim C1.  Let the palette have \<open>2 ^ k\<close> colours with \<open>1 \<le> k \<le> 8\<close>, let the
  index stream be non-empty with every index below \<open>2 ^ k\<close>, and let the encoder run
  at position \<open>p\<close> with the minimum code size \<open>max 2 k\<close>.  The source writes
  into a typed array and drops what does not fit, so let the stream fit into the buffer:
  the position the encoder returns is within it.  Then the decoder, started at \<open>p\<close>
  on the buffer the encoder left, with an output array as long as the index stream,
  returns that index stream and ends regularly (neither of its two warnings).
\<close>

theorem lzw_round_trip:
  assumes "1 \<le> k" "k \<le> 8" and "idx \<noteq> []"
    and "\<forall>x \<in> set idx. uint x < 2 ^ k"
    and "0 \<le> p"
    and "snd (GifWriterOutputLZWCodeStream buf p (int (max 2 k)) idx) \<le> int (length buf)"
    and "length out = length idx"
  shows "readerLZWOutputIndexStream (fst (GifWriterOutputLZWCodeStream buf p (int (max 2 k)) idx))
            p out (int (length idx))
         = Some (idx, Complete)"
  using assms by (rule LZW_decode_encode)

theorem lzw_round_trip_witness:
  "readerLZWOutputIndexStream
     (fst (GifWriterOutputLZWCodeStream (replicate 16 0) 1 2 [0, 3, 1, 2, 3, 3, 3])) 1 (replicate 7 0) 7
   = Some ([0, 3, 1, 2, 3, 3, 3], Complete)"
proof -
  have fit: "snd (GifWriterOutputLZWCodeStream (replicate 16 0) 1 (int (max 2 2)) [0, 3, 1, 2, 3, 3, 3 :: byte])
               \<le> int (length (replicate 16 (0 :: byte)))"
    by code_simp
  have xs: "\<forall>x \<in> set [0, 3, 1, 2, 3, 3, 3 :: byte]. uint x < 2 ^ 2" by simp
  from lzw_round_trip[of 2 "[0, 3, 1, 2, 3, 3, 3]" 1 "replicate 16 0" "replicate 7 0", OF _ _ _ xs _ fit]
  show ?thesis by simp
qed


subsection \<open>C3: header bytes\<close>

text \<open>
  Claim C3.  Every writer that has been constructed successfully on a buffer of at least
  six bytes has the ASCII codes of \<open>GIF89a\<close> in the first six bytes of its buffer.
  The constructor of the reader throws the invalid-header error exactly when the first
  six bytes of its buffer are neither \<open>GIF87a\<close> nor \<open>GIF89a\<close> (a buffer shorter
  than six bytes included).
\<close>

theorem header_bytes:
  "(6 \<le> length buf \<and> GifWriter buf width height opts = Inr wr \<longrightarrow>
      take 6 (w_buf wr) = [0x47, 0x49, 0x46, 0x38, 0x39, 0x61])
   \<and> (Reader rbuf = Inl InvalidHeader \<longleftrightarrow>
        take 6 rbuf \<noteq> [0x47, 0x49, 0x46, 0x38, 0x37, 0x61]
        \<and> take 6 rbuf \<noteq> [0x47, 0x49, 0x46, 0x38, 0x39, 0x61])"
  using GifWriter_header[of buf width height opts wr]
  by (simp add: Reader_header header_check_fails_iff)

theorem header_bytes_witness:
  "take 6 (w_buf \<lparr>w_buf = [0x47, 0x49, 0x46, 0x38, 0x39, 0x61, 1, 0, 1, 0, 0, 0, 0, 0, 0, 0],
                  w_p = 13, w_ended = False, w_global_palette = None\<rparr>)
     = [0x47, 0x49, 0x46, 0x38, 0x39, 0x61]
   \<and> Reader [0x47, 0x49, 0x46, 0x38, 0x38, 0x61] = Inl InvalidHeader"
proof -
  let ?opts = "\<lparr>wo_palette = None, wo_loop = None, wo_background = None\<rparr>"
  let ?wr = "\<lparr>w_buf = [0x47, 0x49, 0x46, 0x38, 0x39, 0x61, 1, 0, 1, 0, 0, 0, 0, 0, 0, 0],
              w_p = 13, w_ended = False, w_global_palette = None\<rparr>"
  have c: "GifWriter (replicate 16 0) 1 1 ?opts = Inr ?wr"
    by code_simp
  have l: "6 \<le> length (replicate 16 (0::byte))"
    by simp
  have t: "take 6 [0x47, 0x49, 0x46, 0x38, 0x38, 0x61 :: byte] \<noteq> [0x47, 0x49, 0x46, 0x38, 0x37, 0x61]
        \<and> take 6 [0x47, 0x49, 0x46, 0x38, 0x38, 0x61 :: byte] \<noteq> [0x47, 0x49, 0x46, 0x38, 0x39, 0x61]"
    by simp
  from header_bytes[of "replicate 16 0" 1 1 ?opts ?wr "[0x47, 0x49, 0x46, 0x38, 0x38, 0x61]"] c l t
  show ?thesis by blast
qed

subsection \<open>C4: validation of the background index\<close>

text \<open>
  Claim C4, as stated, fails: a background index given without a global palette is not
  an error.  The check of the background sits inside the branch for a global palette, so
  without one the option is never looked at, not even when it is 0.
\<close>

theorem background_without_palette_counterexample:
  "\<not> isl (GifWriter (replicate 16 0) 1 1 \<lparr>wo_palette = None, wo_loop = None, wo_background = Some 0\<rparr>)"
  by code_simp

text \<open>
  Claim C4, amended.  When a global palette is supplied together with a background
  index, construction fails if the index is 0 or is not less than the length of the
  palette.  When no global palette is supplied, the background option is ignored: the
  constructor behaves as if it had not been given.
\<close>

theorem background_validation:
  "(wo_palette opts = Some gp \<and> wo_background opts = Some bg \<and> (bg = 0 \<or> bg \<ge> int (length gp))
      \<longrightarrow> isl (GifWriter buf width height opts))
   \<and> (wo_palette opts = None
      \<longrightarrow> GifWriter buf width height opts = GifWriter buf width height (opts\<lparr>wo_background := None\<rparr>))"
proof (intro conjI impI)
  assume a: "wo_palette opts = Some gp \<and> wo_background opts = Some bg \<and> (bg = 0 \<or> bg \<ge> int (length gp))"
  show "isl (GifWriter buf width height opts)"
  proof (cases "check_palette_and_num_colors gp")
    case (Inl e)
    with a show ?thesis by (simp add: GifWriter_def Let_def)
  next
    case (Inr n)
    from js_shl_1_shift_count[OF Inr] a Inr show ?thesis
      by (auto simp: GifWriter_def Let_def)
  qed
next
  assume "wo_palette opts = None"
  then show "GifWriter buf width height opts = GifWriter buf width height (opts\<lparr>wo_background := None\<rparr>)"
    by (simp add: GifWriter_def Let_def)
qed

theorem background_validation_witness:
  "isl (GifWriter (replicate 16 0) 1 1 \<lparr>wo_palette = Some [0, 0], wo_loop = None, wo_background = Some 2\<rparr>)
   \<and> GifWriter (replicate 16 0) 1 1 \<lparr>wo_palette = None, wo_loop = None, wo_background = Some 1\<rparr>
     = GifWriter (replicate 16 0) 1 1 \<lparr>wo_palette = None, wo_loop = None, wo_background = None\<rparr>"
  using background_validation[of "\<lparr>wo_palette = Some [0, 0], wo_loop = None, wo_background = Some 2\<rparr>" "[0, 0]" 2 "replicate 16 0" 1 1]
    background_validation[of "\<lparr>wo_palette = None, wo_loop = None, wo_background = Some 1\<rparr>" "[]" 0 "replicate 16 0" 1 1]
  by simp

subsection \<open>C9: what a failing call has already written\<close>

text \<open>
  Claim C9, as stated, fails: the constructor writes the six header bytes before it
  checks the palette, so a palette of three colours is rejected with the header already
  in the caller's buffer.
\<close>

theorem validation_writes_header_counterexample:
  "GifWriter (replicate 16 0) 1 1 \<lparr>wo_palette = Some [0, 0, 0], wo_loop = None, wo_background = None\<rparr>
     = Inl (InvalidPaletteLength, [0x47, 0x49, 0x46, 0x38, 0x39, 0x61, 0, 0, 0, 0, 0, 0, 0, 0, 0, 0])"
  by code_simp

text \<open>
  Claim C9, amended.  A constructor call that fails on the canvas dimensions leaves the
  buffer untouched.  One that fails on the palette length or on the background index
  has written the six header bytes and nothing else.  One that fails on the loop count
  has written exactly what the same call without a loop count writes.  A failing
  \<open>addFrame\<close> leaves the buffer untouched, and leaves the cursor where it was unless the
  stream was finished, in which case the cursor has been stepped back over the trailer.
\<close>

theorem validation_atomicity:
  "(GifWriter buf width height opts = Inl (WidthHeightInvalid, b) \<longrightarrow> b = buf)
   \<and> (GifWriter buf width height opts = Inl (e, b)
        \<and> (e = InvalidPaletteLength \<or> e = BackgroundOutOfRange \<or> e = BackgroundZero)
      \<longrightarrow> b = fst (puts (buf, 0) [0x47, 0x49, 0x46, 0x38, 0x39, 0x61]))
   \<and> (GifWriter buf width height opts = Inl (LoopCountInvalid, b)
      \<longrightarrow> (\<exists>wr0. GifWriter buf width height (opts\<lparr>wo_loop := None\<rparr>) = Inr wr0 \<and> b = w_buf wr0))
   \<and> (addFrame wr x y w h px fopts = (wr', Inl e')
      \<longrightarrow> w_buf wr' = w_buf wr \<and> w_p wr' = (if w_ended wr then w_p wr - 1 else w_p wr))"
proof (intro conjI impI)
  assume "GifWriter buf width height opts = Inl (WidthHeightInvalid, b)"
  then show "b = buf"
    unfolding GifWriter_def Let_def
    by (auto split: if_splits option.splits sum.splits prod.splits dest: check_palette_error)
next
  assume "GifWriter buf width height opts = Inl (e, b)
        \<and> (e = InvalidPaletteLength \<or> e = BackgroundOutOfRange \<or> e = BackgroundZero)"
  then show "b = fst (puts (buf, 0) [0x47, 0x49, 0x46, 0x38, 0x39, 0x61])"
    unfolding GifWriter_def Let_def
    by (auto split: if_splits option.splits sum.splits prod.splits)
next
  assume "GifWriter buf width height opts = Inl (LoopCountInvalid, b)"
  then show "\<exists>wr0. GifWriter buf width height (opts\<lparr>wo_loop := None\<rparr>) = Inr wr0 \<and> b = w_buf wr0"
    unfolding GifWriter_def Let_def
    by (auto split: if_splits option.splits sum.splits prod.splits
             dest: check_palette_error)
next
  assume "addFrame wr x y w h px fopts = (wr', Inl e')"
  from addFrame_error[OF this] show "w_buf wr' = w_buf wr" by (simp add: un_end_def)
next
  assume "addFrame wr x y w h px fopts = (wr', Inl e')"
  from addFrame_error[OF this] show "w_p wr' = (if w_ended wr then w_p wr - 1 else w_p wr)"
    by (simp add: un_end_def)
qed

theorem validation_atomicity_witness:
  "GifWriter (replicate 16 0) 0 1 \<lparr>wo_palette = None, wo_loop = None, wo_background = None\<rparr>
     = Inl (WidthHeightInvalid, replicate 16 0)
   \<and> GifWriter (replicate 16 0) 1 1 \<lparr>wo_palette = Some [0, 0], wo_loop = None, wo_background = Some 0\<rparr>
     = Inl (BackgroundZero, fst (puts (replicate 16 0, 0) [0x47, 0x49, 0x46, 0x38, 0x39, 0x61]))
   \<and> w_p (fst (addFrame \<lparr>w_buf = replicate 16 0, w_p = 14, w_ended = True, w_global_palette = None\<rparr>
                 (- 1) 0 1 1 [0] \<lparr>fo_palette = None, fo_delay = None, fo_disposal = None,
                                  fo_transparent = None\<rparr>)) = 13"
proof -
  let ?o1 = "\<lparr>wo_palette = None, wo_loop = None, wo_background = None\<rparr>"
  let ?o2 = "\<lparr>wo_palette = Some [0, 0], wo_loop = None, wo_background = Some 0\<rparr>"
  let ?wr = "\<lparr>w_buf = replicate 16 0, w_p = 14, w_ended = True, w_global_palette = None\<rparr>"
  let ?fo = "\<lparr>fo_palette = None, fo_delay = None, fo_disposal = None, fo_transparent = None\<rparr>"
  let ?b2 = "[0x47, 0x49, 0x46, 0x38, 0x39, 0x61, 0, 0, 0, 0, 0, 0, 0, 0, 0, 0] :: byte list"
  have b1: "GifWriter (replicate 16 0) 0 1 ?o1 = Inl (WidthHeightInvalid, replicate 16 0)"
    by code_simp
  have b2: "GifWriter (replicate 16 0) 1 1 ?o2 = Inl (BackgroundZero, ?b2)"
    by code_simp
  obtain wr' where a: "addFrame ?wr (- 1) 0 1 1 [0] ?fo = (wr', Inl XYInvalid)"
    by (simp add: addFrame_def)
  from validation_atomicity[where buf = "replicate 16 0" and width = 1 and height = 1
        and opts = ?o2 and e = BackgroundZero and b = ?b2] b2
  have 2: "?b2 = fst (puts (replicate 16 0, 0) [0x47, 0x49, 0x46, 0x38, 0x39, 0x61])" by blast
  from validation_atomicity[where wr = ?wr and x = "- 1" and y = 0 and w = 1 and h = 1
        and px = "[0]" and fopts = ?fo and wr' = wr' and e' = XYInvalid] a
  have 3: "w_p wr' = 13" by simp
  from 2 3 b1 b2 a show ?thesis by simp
qed

subsection \<open>C7: \<open>end\<close> is idempotent and can be undone\<close>

text \<open>
  Claim C7.  On a stream that is not finished, \<open>end()\<close> stores the trailer byte
  \<open>0x3B\<close> at the cursor, moves the cursor by one and returns it; a second \<open>end()\<close>
  changes nothing and returns the same length.  \<open>addFrame\<close> after \<open>end()\<close> behaves
  exactly as \<open>addFrame\<close> on the unfinished writer whose cursor stands on the trailer
  byte, and the stream is unfinished afterwards.  When that \<open>addFrame\<close> succeeds and
  returns \<open>n\<close>, the buffer below the trailer's former index is as it was, the byte at
  that index is the first byte of the frame (\<open>0x21\<close> of its Graphics Control
  Extension, or \<open>0x2C\<close> of its image descriptor), so the old trailer is overwritten;
  the cursor is \<open>n\<close>, more than ten bytes further on; the next \<open>end()\<close> stores one
  trailer byte at \<open>n\<close> and returns \<open>n + 1\<close>, and one more \<open>end()\<close> changes
  nothing.
\<close>

theorem end_and_unend:
  assumes "\<not> w_ended wr" and "0 \<le> w_p wr"
  shows "end_writer wr
           = (wr\<lparr>w_buf := store (w_buf wr) (w_p wr) 0x3B, w_p := w_p wr + 1, w_ended := True\<rparr>,
              w_p wr + 1)
       \<and> end_writer (fst (end_writer wr)) = (fst (end_writer wr), w_p wr + 1)
       \<and> addFrame (fst (end_writer wr)) x y w h px fopts
           = addFrame (wr\<lparr>w_buf := store (w_buf wr) (w_p wr) 0x3B\<rparr>) x y w h px fopts
       \<and> (let wr3 = fst (addFrame (fst (end_writer wr)) x y w h px fopts)
          in end_writer wr3
               = (wr3\<lparr>w_buf := store (w_buf wr3) (w_p wr3) 0x3B, w_p := w_p wr3 + 1,
                       w_ended := True\<rparr>,
                  w_p wr3 + 1))
       \<and> (addFrame (fst (end_writer wr)) x y w h px fopts = (wr2, Inr n) \<longrightarrow>
            take (nat (w_p wr)) (w_buf wr2) = take (nat (w_p wr)) (w_buf wr)
          \<and> length (w_buf wr2) = length (w_buf wr)
          \<and> (w_p wr < int (length (w_buf wr)) \<longrightarrow>
               w_buf wr2 ! nat (w_p wr)
                 = (if (case fo_disposal fopts of None \<Rightarrow> 0 | Some d \<Rightarrow> d) \<noteq> 0
                        \<or> fo_transparent fopts \<noteq> None
                        \<or> (case fo_delay fopts of None \<Rightarrow> 0 | Some d \<Rightarrow> d) \<noteq> 0
                    then 0x21 else 0x2C))
          \<and> w_p wr + 10 < n \<and> w_p wr2 = n \<and> \<not> w_ended wr2
          \<and> end_writer wr2
               = (wr2\<lparr>w_buf := store (w_buf wr2) n 0x3B, w_p := n + 1, w_ended := True\<rparr>, n + 1)
          \<and> end_writer (fst (end_writer wr2)) = (fst (end_writer wr2), n + 1))"
proof -
  let ?p = "w_p wr"
  let ?B = "store (w_buf wr) ?p 0x3B"
  have e1: "end_writer wr
           = (wr\<lparr>w_buf := ?B, w_p := ?p + 1, w_ended := True\<rparr>, ?p + 1)"
    using assms by (simp add: end_writer_def)
  have e2: "end_writer (fst (end_writer wr)) = (fst (end_writer wr), ?p + 1)"
    by (simp add: e1) (simp add: end_writer_def)
  have ue: "un_end (fst (end_writer wr)) = un_end (wr\<lparr>w_buf := ?B\<rparr>)"
    using assms by (simp add: e1 un_end_def)
  then have e3: "addFrame (fst (end_writer wr)) x y w h px fopts
           = addFrame (wr\<lparr>w_buf := ?B\<rparr>) x y w h px fopts"
    by (simp only: addFrame_def)
  have ne: "\<not> w_ended (fst (addFrame wr' x y w h px fopts))" for wr'
    unfolding addFrame_def Let_def
    by (auto simp: un_end_def split: option.splits sum.splits)
  have e4: "(let wr3 = fst (addFrame (fst (end_writer wr)) x y w h px fopts)
          in end_writer wr3
               = (wr3\<lparr>w_buf := store (w_buf wr3) (w_p wr3) 0x3B, w_p := w_p wr3 + 1,
                       w_ended := True\<rparr>,
                  w_p wr3 + 1))"
    using ne[of "fst (end_writer wr)"] by (simp add: Let_def end_writer_def)
  have e5: "take (nat ?p) (w_buf wr2) = take (nat ?p) (w_buf wr)
          \<and> length (w_buf wr2) = length (w_buf wr)
          \<and> (?p < int (length (w_buf wr)) \<longrightarrow>
               w_buf wr2 ! nat ?p
                 = (if (case fo_disposal fopts of None \<Rightarrow> 0 | Some d \<Rightarrow> d) \<noteq> 0
                        \<or> fo_transparent fopts \<noteq> None
                        \<or> (case fo_delay fopts of None \<Rightarrow> 0 | Some d \<Rightarrow> d) \<noteq> 0
                    then 0x21 else 0x2C))
          \<and> ?p + 10 < n \<and> w_p wr2 = n \<and> \<not> w_ended wr2
          \<and> end_writer wr2
               = (wr2\<lparr>w_buf := store (w_buf wr2) n 0x3B, w_p := n + 1, w_ended := True\<rparr>, n + 1)
          \<and> end_writer (fst (end_writer wr2)) = (fst (end_writer wr2), n + 1)"
    if ok: "addFrame (fst (end_writer wr)) x y w h px fopts = (wr2, Inr n)"
  proof -
    have up: "w_p (un_end (fst (end_writer wr))) = ?p" "w_buf (fst (end_writer wr)) = ?B"
      "\<not> w_ended (un_end (fst (end_writer wr)))"
      using assms by (simp_all add: e1 un_end_def)
    from addFrame_success[OF ok] obtain pal m where
      r: "wr2 = (un_end (fst (end_writer wr)))
                  \<lparr>w_buf := fst (GifWriterOutputLZWCodeStream
                                  (fst (frame_start (?B, ?p) x y w h fopts pal))
                                  (snd (frame_start (?B, ?p) x y w h fopts pal)) m px),
                   w_p := n\<rparr>"
      "n = snd (GifWriterOutputLZWCodeStream
                                  (fst (frame_start (?B, ?p) x y w h fopts pal))
                                  (snd (frame_start (?B, ?p) x y w h fopts pal)) m px)"
      unfolding up by blast
    let ?fs = "frame_start (?B, ?p) x y w h fopts pal"
    have cur: "?p + 10 \<le> snd ?fs" by (rule frame_start_cursor)
    have buf2: "w_buf wr2 = fst (GifWriterOutputLZWCodeStream (fst ?fs) (snd ?fs) m px)"
      and p2: "w_p wr2 = n" and ne2: "\<not> w_ended wr2"
      using r(1) up(3) by simp_all
    have k1: "int (nat ?p) \<le> snd ?fs" using cur assms(2) by simp
    have k2: "int (Suc (nat ?p)) \<le> snd ?fs" using cur assms(2) by simp
    have k3: "int (nat (snd ?fs)) \<le> snd ?fs" using cur assms(2) by simp
    have "take (nat ?p) (w_buf wr2) = take (nat ?p) (fst ?fs)"
      unfolding buf2 using k1 by (rule LZW_above(1))
    also have "\<dots> = take (nat ?p) ?B" using assms(2) by (intro frame_start_prefix) simp
    also have "\<dots> = take (nat ?p) (w_buf wr)" using assms(2) by (intro take_store) simp
    finally have c1: "take (nat ?p) (w_buf wr2) = take (nat ?p) (w_buf wr)" .
    have c2: "length (w_buf wr2) = length (w_buf wr)"
      unfolding buf2 using LZW_above(2)[OF k1, of "fst ?fs" m px]
      by (simp add: frame_start_length)
    have c3: "w_buf wr2 ! nat ?p
                 = (if (case fo_disposal fopts of None \<Rightarrow> 0 | Some d \<Rightarrow> d) \<noteq> 0
                        \<or> fo_transparent fopts \<noteq> None
                        \<or> (case fo_delay fopts of None \<Rightarrow> 0 | Some d \<Rightarrow> d) \<noteq> 0
                    then 0x21 else 0x2C)"
      if "?p < int (length (w_buf wr))"
    proof -
      have "take (Suc (nat ?p)) (w_buf wr2) = take (Suc (nat ?p)) (fst ?fs)"
        unfolding buf2 using k2 by (rule LZW_above(1))
      then have "take (Suc (nat ?p)) (w_buf wr2) ! nat ?p = take (Suc (nat ?p)) (fst ?fs) ! nat ?p"
        by simp
      then have "w_buf wr2 ! nat ?p = fst ?fs ! nat ?p" by simp
      moreover have "?p < int (length ?B)" using that by simp
      ultimately show ?thesis using frame_start_first[OF assms(2), of ?B x y w h fopts pal] by simp
    qed
    have "snd ?fs < n" unfolding r(2) using LZW_above(3)[OF k3, of "fst ?fs" m px] cur assms(2) by simp
    with cur have c4: "?p + 10 < n" by simp
    have c5: "end_writer wr2
               = (wr2\<lparr>w_buf := store (w_buf wr2) n 0x3B, w_p := n + 1, w_ended := True\<rparr>, n + 1)"
      using ne2 p2 by (simp add: end_writer_def)
    have c6: "end_writer (fst (end_writer wr2)) = (fst (end_writer wr2), n + 1)"
      by (simp add: c5) (simp add: end_writer_def)
    from c1 c2 c3 c4 p2 ne2 c5 c6 show ?thesis by blast
  qed
  from e1 e2 e3 e4 e5 show ?thesis by blast
qed

theorem end_and_unend_witness:
  "end_writer \<lparr>w_buf = replicate 32 0, w_p = 13, w_ended = False, w_global_palette = Some [0, 0]\<rparr>
     = (\<lparr>w_buf = (replicate 32 0)[13 := 0x3B], w_p = 14, w_ended = True,
         w_global_palette = Some [0, 0]\<rparr>, 14)
   \<and> snd (addFrame
        (fst (end_writer \<lparr>w_buf = replicate 32 0, w_p = 13, w_ended = False,
                          w_global_palette = Some [0, 0]\<rparr>))
        0 0 1 1 [0]
        \<lparr>fo_palette = None, fo_delay = None, fo_disposal = None, fo_transparent = None\<rparr>) = Inr 28
   \<and> take 13 (w_buf (fst (addFrame
        (fst (end_writer \<lparr>w_buf = replicate 32 0, w_p = 13, w_ended = False,
                          w_global_palette = Some [0, 0]\<rparr>))
        0 0 1 1 [0]
        \<lparr>fo_palette = None, fo_delay = None, fo_disposal = None, fo_transparent = None\<rparr>)))
       = replicate 13 0
   \<and> w_buf (fst (addFrame
        (fst (end_writer \<lparr>w_buf = replicate 32 0, w_p = 13, w_ended = False,
                          w_global_palette = Some [0, 0]\<rparr>))
        0 0 1 1 [0]
        \<lparr>fo_palette = None, fo_delay = None, fo_disposal = None, fo_transparent = None\<rparr>)) ! 13
       = 0x2C
   \<and> snd (end_writer (fst (addFrame
        (fst (end_writer \<lparr>w_buf = replicate 32 0, w_p = 13, w_ended = False,
                          w_global_palette = Some [0, 0]\<rparr>))
        0 0 1 1 [0]
        \<lparr>fo_palette = None, fo_delay = None, fo_disposal = None, fo_transparent = None\<rparr>))) = 29"
proof -
  let ?wr = "\<lparr>w_buf = replicate 32 0, w_p = 13, w_ended = False, w_global_palette = Some [0, 0]\<rparr>"
  let ?fo = "\<lparr>fo_palette = None, fo_delay = None, fo_disposal = None, fo_transparent = None\<rparr>"
  let ?r = "addFrame (fst (end_writer ?wr)) 0 0 1 1 [0] ?fo"
  have a: "\<not> w_ended ?wr" by simp
  have b: "0 \<le> w_p ?wr" by simp
  have s: "snd ?r = Inr 28" by code_simp
  then have e: "?r = (fst ?r, Inr 28)" by (simp add: prod_eq_iff)
  note t = end_and_unend[OF a b, where x = 0 and y = 0 and w = 1 and h = 1 and px = "[0]"
      and fopts = ?fo and ?wr2.0 = "fst ?r" and n = 28]
  from t have t1: "end_writer ?wr
           = (?wr\<lparr>w_buf := store (w_buf ?wr) (w_p ?wr) 0x3B, w_p := w_p ?wr + 1, w_ended := True\<rparr>,
              w_p ?wr + 1)"
    by blast
  from t e have t5: "take (nat (w_p ?wr)) (w_buf (fst ?r)) = take (nat (w_p ?wr)) (w_buf ?wr)"
    "w_p ?wr < int (length (w_buf ?wr)) \<longrightarrow>
               w_buf (fst ?r) ! nat (w_p ?wr)
                 = (if (case fo_disposal ?fo of None \<Rightarrow> 0 | Some d \<Rightarrow> d) \<noteq> 0
                        \<or> fo_transparent ?fo \<noteq> None
                        \<or> (case fo_delay ?fo of None \<Rightarrow> 0 | Some d \<Rightarrow> d) \<noteq> 0
                    then 0x21 else 0x2C)"
    "end_writer (fst ?r)
               = ((fst ?r)\<lparr>w_buf := store (w_buf (fst ?r)) 28 0x3B, w_p := 28 + 1, w_ended := True\<rparr>, 28 + 1)"
    by blast+
  have c1: "end_writer ?wr = (\<lparr>w_buf = (replicate 32 0)[13 := 0x3B], w_p = 14, w_ended = True,
         w_global_palette = Some [0, 0]\<rparr>, 14)"
    using t1 by (simp add: store_def)
  have c3: "take 13 (w_buf (fst ?r)) = replicate 13 0" using t5(1) by simp
  have c4: "w_buf (fst ?r) ! 13 = 0x2C" using t5(2) by simp
  have c5: "snd (end_writer (fst ?r)) = 29" using t5(3) by simp
  from c1 s c3 c4 c5 show ?thesis by blast
qed

subsection \<open>C10: the encoder masks every index\<close>

text \<open>
  Claim C10.  Let the effective palette of a frame pass the palette check with \<open>n\<close>
  colours, so that the encoder runs with the minimum code size
  \<open>max 2 (log2 n)\<close>.  Then \<open>addFrame\<close> gives the same writer and the same result for
  the pixel indices as given and for the indices reduced modulo two to the minimum code
  size; and when position, size, pixel count, disposal and transparent index are valid
  the call succeeds whatever the values of the indices are.
\<close>

theorem encoder_masks_indices:
  assumes "(case fo_palette fopts of None \<Rightarrow> w_global_palette wr | Some lp \<Rightarrow> Some lp) = Some pal"
      and "check_palette_and_num_colors pal = Inr n"
  shows "addFrame wr x y w h (map (\<lambda>b. word_of_int (uint b mod 2 ^ max 2 (shift_count n))) px) fopts
           = addFrame wr x y w h px fopts
       \<and> (0 \<le> x \<and> x \<le> 65535 \<and> 0 \<le> y \<and> y \<le> 65535
            \<and> 0 < w \<and> w \<le> 65535 \<and> 0 < h \<and> h \<le> 65535
            \<and> w * h \<le> int (length px)
            \<and> (\<forall>d. fo_disposal fopts = Some d \<longrightarrow> 0 \<le> d \<and> d \<le> 3)
            \<and> (\<forall>t. fo_transparent fopts = Some t \<longrightarrow> 0 \<le> t \<and> t < int n)
          \<longrightarrow> (\<exists>q. snd (addFrame wr x y w h px fopts) = Inr q))"
proof -
  let ?m = "max 2 (shift_count n)"
  from check_palette_pow2[OF assms(2)] obtain k where k: "1 \<le> k" "k \<le> 8" "n = 2 ^ k" by blast
  then have m8: "?m \<le> 8" by simp
  have mcs: "(if int (shift_count n) < 2 then 2 else int (shift_count n)) = int ?m" by simp
  have nc: "js_shl 1 (int (shift_count n)) = int n"
    using js_shl_1_shift_count[OF assms(2)] check_palette_pow2(1)[OF assms(2)] by simp
  have pal': "(case fo_palette fopts of None \<Rightarrow> w_global_palette (un_end wr) | Some lp \<Rightarrow> Some lp) = Some pal"
    using assms(1) by (cases "fo_palette fopts") simp_all
  have eq: "addFrame wr x y w h (map (\<lambda>b. word_of_int (uint b mod 2 ^ ?m)) px) fopts
           = addFrame wr x y w h px fopts"
    unfolding addFrame_def
    by (simp only: Let_def length_map pal' assms(2) option.case sum.case mcs LZW_reduced[OF m8])
  have ok: "\<exists>q. snd (addFrame wr x y w h px fopts) = Inr q"
    if "0 \<le> x \<and> x \<le> 65535 \<and> 0 \<le> y \<and> y \<le> 65535
            \<and> 0 < w \<and> w \<le> 65535 \<and> 0 < h \<and> h \<le> 65535
            \<and> w * h \<le> int (length px)
            \<and> (\<forall>d. fo_disposal fopts = Some d \<longrightarrow> 0 \<le> d \<and> d \<le> 3)
            \<and> (\<forall>t. fo_transparent fopts = Some t \<longrightarrow> 0 \<le> t \<and> t < int n)"
    using that unfolding addFrame_def Let_def
    by (auto simp: pal' assms(2) nc split: option.splits)
  from eq ok show ?thesis by blast
qed

theorem encoder_masks_indices_witness:
  "addFrame \<lparr>w_buf = replicate 32 0, w_p = 13, w_ended = False, w_global_palette = Some [0, 0]\<rparr>
       0 0 2 2 [0, 1, 1, 3]
       \<lparr>fo_palette = None, fo_delay = None, fo_disposal = None, fo_transparent = None\<rparr>
     = addFrame \<lparr>w_buf = replicate 32 0, w_p = 13, w_ended = False, w_global_palette = Some [0, 0]\<rparr>
       0 0 2 2 [0, 5, 1, 7]
       \<lparr>fo_palette = None, fo_delay = None, fo_disposal = None, fo_transparent = None\<rparr>"
proof -
  let ?wr = "\<lparr>w_buf = replicate 32 0, w_p = 13, w_ended = False, w_global_palette = Some [0, 0]\<rparr>"
  let ?fo = "\<lparr>fo_palette = None, fo_delay = None, fo_disposal = None, fo_transparent = None\<rparr>"
  have p: "(case fo_palette ?fo of None \<Rightarrow> w_global_palette ?wr | Some lp \<Rightarrow> Some lp) = Some [0, 0]"
    by simp
  have n: "check_palette_and_num_colors [0, 0] = Inr 2"
    by code_simp
  have m: "max 2 (shift_count 2) = 2"
    by code_simp
  have r: "map (\<lambda>b. word_of_int (uint b mod 2 ^ 2)) [0, 5, 1, 7 :: byte] = [0, 1, 1, 3]"
    by simp
  have "addFrame ?wr 0 0 2 2 (map (\<lambda>b. word_of_int (uint b mod 2 ^ max 2 (shift_count 2))) [0, 5, 1, 7 :: byte]) ?fo
          = addFrame ?wr 0 0 2 2 [0, 5, 1, 7] ?fo"
    by (rule encoder_masks_indices[OF p n, where x = 0 and y = 0 and w = 2 and h = 2
          and px = "[0, 5, 1, 7]", THEN conjunct1])
  then show ?thesis by (simp only: m r)
qed

subsection \<open>C5: scope of a Graphics Control Extension\<close>

text \<open>
  Claim C5 does not hold of the parser: the delay, the disposal and the transparent
  index live in variables declared before the block loop and are never reset after a
  frame has been pushed.  In the stream below a Graphics Control Extension (delay 10,
  disposal 2, transparent index 1) is followed by two image descriptors; the second
  frame, which has no extension of its own, is given the values of the first.
\<close>

theorem gce_values_leak_into_next_frame:
  "(case Reader gce_then_two_frames of
      Inl e \<Rightarrow> []
    | Inr r \<Rightarrow> map (\<lambda>f. (f_delay f, f_disposal f, f_transparent_index f)) (r_frames r))
   = [(10, 2, Some 1), (10, 2, Some 1)]"
  unfolding gce_then_two_frames_def by code_simp

theorem gce_values_leak_into_next_frame_witness:
  "(case Reader gce_then_two_frames of
      Inl e \<Rightarrow> 0
    | Inr r \<Rightarrow> f_delay (r_frames r ! 1)) = 10"
  using gce_values_leak_into_next_frame
  by (cases "Reader gce_then_two_frames") auto

subsection \<open>C6: application extensions other than the looping extension\<close>

text \<open>
  Claim C6 does not hold of the parser.  The test for the looping extension reads
  \<open>buf[p] !== 0x0B || (NETSCAPE2.0 ...)\<close>, so every application extension whose first
  block size is not 11 is taken for the looping extension: a loop count is read from the
  bytes at offsets 14 and 15 and the cursor moves on by 17.  In the stream below an
  application extension with a three-byte block is followed by an ordinary frame and the
  trailer; the parser lands inside the frame's compressed data and throws.
\<close>

theorem application_extension_not_skipped:
  "Reader application_extension_size3 = Inl (UnknownGifBlock 0x44)"
  unfolding application_extension_size3_def by code_simp

theorem application_extension_not_skipped_witness:
  "isl (Reader application_extension_size3)"
  using application_extension_not_skipped by simp

subsection \<open>C8: interlaced rows\<close>

text \<open>
  Claim C8 does not hold for every interlaced frame.  When the output cursor passes the
  end of the frame it is moved to the first row of the next pass without a second test,
  so a pass that has no row in the frame is not skipped.  Below, a frame of one column
  and two rows is drawn on a canvas of five rows: the second row of the stream is
  written to canvas row 4, not to row 1.
\<close>

theorem interlaced_second_row_misplaced:
  "(case Reader interlaced_two_rows of
      Inl e \<Rightarrow> None
    | Inr r \<Rightarrow> decodeAndBlitFrameRGBA r 0 (replicate 20 0))
   = Some (Inr [1, 1, 1, 255, 0, 0, 0, 0, 0, 0, 0, 0, 0, 0, 0, 0, 2, 2, 2, 255])"
  unfolding interlaced_two_rows_def by code_simp

theorem interlaced_second_row_misplaced_witness:
  "(case Reader interlaced_two_rows of
      Inl e \<Rightarrow> None
    | Inr r \<Rightarrow> decodeAndBlitFrameRGBA r 0 (replicate 20 0)) \<noteq> None"
  using interlaced_second_row_misplaced by simp

end
